theory Spec2Isabelle
  imports Main "HOL-Library.AList"
begin

section \<open>Data model\<close>

text \<open>
  The class \<^verbatim>\<open>Airdrop\<close> lives in \<^verbatim>\<open>airdrop.py\<close>, which is not among the sources; its
  fields are the keyword arguments of the constructor call in
  \<^verbatim>\<open>AirdropManager.__fetch_db_state\<close>. Python integers are unbounded, so identifiers,
  amounts and times are \<^typ>\<open>int\<close> (the source also admits floats for amount and
  duration; the model covers the integer case).
\<close>

record airdrop =
  guild_id :: int
  channel_id :: int
  message_id :: int
  amount :: int
  end_time :: int
  entrants :: "int list"

text \<open>A document of the collection \<^verbatim>\<open>bot.db.db.airdrops\<close>, with the keys read in
  \<^verbatim>\<open>__fetch_db_state\<close>: \<^verbatim>\<open>gid\<close>, \<^verbatim>\<open>cid\<close>, \<^verbatim>\<open>_id\<close>, \<^verbatim>\<open>amount\<close>, \<^verbatim>\<open>end_time\<close>, \<^verbatim>\<open>entrants\<close>.\<close>

record doc =
  d_gid :: int
  d_cid :: int
  d_id :: int
  d_amount :: int
  d_end_time :: int
  d_entrants :: "int list"

text \<open>What the manager reads of a \<^verbatim>\<open>discord.TextChannel\<close>, a \<^verbatim>\<open>discord.Message\<close> and an
  \<^verbatim>\<open>ApplicationContext\<close>.\<close>

record channel =
  ch_id :: int
  ch_guild_id :: int

record message =
  msg_id :: int
  msg_channel :: channel

record app_context =
  ctx_channel :: channel

text \<open>The argument of \<^verbatim>\<open>get_airdrop\<close>, \<^verbatim>\<open>_remove\<close>, \<^verbatim>\<open>cancel\<close> and \<^verbatim>\<open>resolve\<close> is
  \<^verbatim>\<open>Union[int, Airdrop]\<close>.\<close>

datatype ref = ById int | ByEntity airdrop

text \<open>
  Every awaited call on an external collaborator (the funds backend, the chat transport,
  the document store) and the logger call of \<^verbatim>\<open>frame\<close>.
\<close>

datatype call =
    CanAfford int
  | InsufficientFunds int
  | RespondConfirmed
  | Send int
  | EditView int airdrop
  | Pin int
  | StoreInsert doc
  | StoreDelete int
  | StoreFind
  | Distribute airdrop
  | Unpin int int
  | FetchMessage int int
  | EditCancelled int int
  | LogDispatch int

text \<open>
  The trace records, in program order, every external call with its outcome and every
  mutation of the dictionary \<^verbatim>\<open>self._state\<close>.
\<close>

datatype entry =
    Returned call
  | Raised call
  | CacheSet int airdrop
  | CacheDel int
  | CacheUpdate "(int \<times> airdrop) list"

datatype error =
    AirdropNotFound
  | KeyError
  | DuplicateKeyError
  | CallFailed call

text \<open>
  The manager's world: \<^verbatim>\<open>self._state\<close> as an association list in insertion order (a
  Python dictionary iterates in insertion order), the collection as the list of its
  documents, and the trace.
\<close>

record state =
  cache :: "(int \<times> airdrop) list"
  store :: "doc list"
  trace :: "entry list"

text \<open>
  The behaviour of the collaborators is a parameter: whether a call raises, what the
  funds backend answers, and which message the transport creates, each as a function of
  the history so far.
\<close>

record env =
  fails :: "entry list \<Rightarrow> call \<Rightarrow> bool"
  affordable :: "entry list \<Rightarrow> int \<Rightarrow> bool"
  sent :: "entry list \<Rightarrow> channel \<Rightarrow> message"

section \<open>Operations as state transformers with exceptions\<close>

type_synonym 'a op = "state \<Rightarrow> (error + 'a) \<times> state"

definition returnE :: "'a \<Rightarrow> 'a op" where
  "returnE a s = (Inr a, s)"

definition bindE :: "'a op \<Rightarrow> ('a \<Rightarrow> 'b op) \<Rightarrow> 'b op" where
  "bindE f g s = (case f s of (Inl e, s') \<Rightarrow> (Inl e, s') | (Inr a, s') \<Rightarrow> g a s')"

definition external :: "env \<Rightarrow> call \<Rightarrow> unit op" where
  "external env c s =
     (if fails env (trace s) c
      then (Inl (CallFailed c), s\<lparr>trace := trace s @ [Raised c]\<rparr>)
      else (Inr (), s\<lparr>trace := trace s @ [Returned c]\<rparr>))"

subsection \<open>The dictionary \<^verbatim>\<open>self._state\<close>\<close>

text \<open>\<^verbatim>\<open>self._state[k] = v\<close>: an existing key keeps its position, a new one goes last.\<close>

definition cache_set :: "int \<Rightarrow> airdrop \<Rightarrow> unit op" where
  "cache_set k v s =
     (Inr (), s\<lparr>cache := AList.update k v (cache s), trace := trace s @ [CacheSet k v]\<rparr>)"

text \<open>\<^verbatim>\<open>del self._state[k]\<close> raises \<^verbatim>\<open>KeyError\<close> on a missing key.\<close>

definition cache_del :: "int \<Rightarrow> unit op" where
  "cache_del k s =
     (if map_of (cache s) k = None then (Inl KeyError, s)
      else (Inr (), s\<lparr>cache := AList.delete k (cache s), trace := trace s @ [CacheDel k]\<rparr>))"

text \<open>\<^verbatim>\<open>{ad.message_id: ad for ad in fetched}\<close>\<close>

definition dict_of :: "airdrop list \<Rightarrow> (int \<times> airdrop) list" where
  "dict_of fetched = foldl (\<lambda>d ad. AList.update (message_id ad) ad d) [] fetched"

text \<open>\<^verbatim>\<open>self._state.update(d)\<close>\<close>

definition cache_merge :: "(int \<times> airdrop) list \<Rightarrow> unit op" where
  "cache_merge d s =
     (Inr (), s\<lparr>cache := foldl (\<lambda>c (k, v). AList.update k v c) (cache s) d,
                trace := trace s @ [CacheUpdate d]\<rparr>)"

subsection \<open>The collection \<^verbatim>\<open>bot.db.db.airdrops\<close>\<close>

text \<open>\<^verbatim>\<open>insert_one\<close> raises \<^verbatim>\<open>DuplicateKeyError\<close> when the \<^verbatim>\<open>_id\<close> is taken.\<close>

definition insert_one :: "env \<Rightarrow> doc \<Rightarrow> unit op" where
  "insert_one env d s =
     (if d_id d \<in> d_id ` set (store s)
      then (Inl DuplicateKeyError, s\<lparr>trace := trace s @ [Raised (StoreInsert d)]\<rparr>)
      else if fails env (trace s) (StoreInsert d)
      then (Inl (CallFailed (StoreInsert d)), s\<lparr>trace := trace s @ [Raised (StoreInsert d)]\<rparr>)
      else (Inr (), s\<lparr>store := store s @ [d], trace := trace s @ [Returned (StoreInsert d)]\<rparr>))"

fun delete_first :: "int \<Rightarrow> doc list \<Rightarrow> doc list" where
  "delete_first k [] = []"
| "delete_first k (d # ds) = (if d_id d = k then ds else d # delete_first k ds)"

text \<open>\<^verbatim>\<open>delete_one({'_id': k})\<close> deletes the first match and is silent when there is none.\<close>

definition delete_one :: "env \<Rightarrow> int \<Rightarrow> unit op" where
  "delete_one env k s =
     (if fails env (trace s) (StoreDelete k)
      then (Inl (CallFailed (StoreDelete k)), s\<lparr>trace := trace s @ [Raised (StoreDelete k)]\<rparr>)
      else (Inr (), s\<lparr>store := delete_first k (store s),
                      trace := trace s @ [Returned (StoreDelete k)]\<rparr>))"

definition find_all :: "env \<Rightarrow> doc list op" where
  "find_all env s =
     (if fails env (trace s) StoreFind
      then (Inl (CallFailed StoreFind), s\<lparr>trace := trace s @ [Raised StoreFind]\<rparr>)
      else (Inr (store s), s\<lparr>trace := trace s @ [Returned StoreFind]\<rparr>))"

subsection \<open>Queries that return a value\<close>

text \<open>\<^verbatim>\<open>await self.bot.crypto.can_afford(self.bot.crypto.to_contract_value(amount))\<close>\<close>

definition can_afford :: "env \<Rightarrow> int \<Rightarrow> bool op" where
  "can_afford env amt s =
     (if fails env (trace s) (CanAfford amt)
      then (Inl (CallFailed (CanAfford amt)), s\<lparr>trace := trace s @ [Raised (CanAfford amt)]\<rparr>)
      else (Inr (affordable env (trace s) amt),
            s\<lparr>trace := trace s @ [Returned (CanAfford amt)]\<rparr>))"

text \<open>\<^verbatim>\<open>await channel.send(embed=embed, view=view)\<close>\<close>

definition send :: "env \<Rightarrow> channel \<Rightarrow> message op" where
  "send env ch s =
     (if fails env (trace s) (Send (ch_id ch))
      then (Inl (CallFailed (Send (ch_id ch))), s\<lparr>trace := trace s @ [Raised (Send (ch_id ch))]\<rparr>)
      else (Inr (sent env (trace s) ch),
            s\<lparr>trace := trace s @ [Returned (Send (ch_id ch))]\<rparr>))"

section \<open>The class \<^verbatim>\<open>Airdrop\<close>\<close>

text \<open>Modelled from the spec: \<^verbatim>\<open>Airdrop.from_message\<close> (\<^verbatim>\<open>airdrop.py\<close> is not among the
  sources). The spec's create "constructs an Event with endTime = now + duration,
  entrants = {}"; the identifier is the anchor message's, the location the given channel
  (the message's own when none is given).\<close>

definition from_message :: "message \<Rightarrow> int \<Rightarrow> int \<Rightarrow> channel option \<Rightarrow> airdrop" where
  "from_message m amt et ch =
     \<lparr>guild_id = ch_guild_id (msg_channel m),
      channel_id = ch_id (case ch of None \<Rightarrow> msg_channel m | Some c \<Rightarrow> c),
      message_id = msg_id m,
      amount = amt,
      end_time = et,
      entrants = []\<rparr>"

text \<open>Modelled from the spec: \<^verbatim>\<open>Airdrop.to_db_dict\<close> (\<^verbatim>\<open>airdrop.py\<close> is not among the
  sources). The spec's record fields are "id, locationId, amount, endTime, entrants";
  the keys are those \<^verbatim>\<open>__fetch_db_state\<close> reads back.\<close>

definition to_db_dict :: "airdrop \<Rightarrow> doc" where
  "to_db_dict a =
     \<lparr>d_gid = guild_id a, d_cid = channel_id a, d_id = message_id a,
      d_amount = amount a, d_end_time = end_time a, d_entrants = entrants a\<rparr>"

text \<open>Modelled from the spec: the property \<^verbatim>\<open>Airdrop.ended\<close> (\<^verbatim>\<open>airdrop.py\<close> is not among
  the sources). The spec: "hasEnded = current time \<ge> endTime (a pure function of clock,
  not stored)".\<close>

definition ended :: "int \<Rightarrow> airdrop \<Rightarrow> bool" where
  "ended now ad = (end_time ad \<le> now)"

text \<open>Modelled from the spec: the property \<^verbatim>\<open>Airdrop.ends_in\<close> (\<^verbatim>\<open>airdrop.py\<close> is not among
  the sources), the time left until the spec's "endTime: absolute expiry timestamp
  (seconds since epoch)".\<close>

definition ends_in :: "int \<Rightarrow> airdrop \<Rightarrow> int" where
  "ends_in now ad = end_time ad - now"

section \<open>The class \<^verbatim>\<open>AirdropManager\<close>\<close>

text \<open>The constructor call in the loop body of \<^verbatim>\<open>__fetch_db_state\<close>.\<close>

definition of_doc :: "doc \<Rightarrow> airdrop" where
  "of_doc d =
     \<lparr>guild_id = d_gid d, channel_id = d_cid d, message_id = d_id d,
      amount = d_amount d, end_time = d_end_time d, entrants = d_entrants d\<rparr>"

definition fetch_db_state :: "env \<Rightarrow> airdrop list op" where
  "fetch_db_state env = bindE (find_all env) (\<lambda>docs. returnE (map of_doc docs))"

text \<open>\<^verbatim>\<open>_add_from_message\<close>; \<open>now\<close> is the value of \<^verbatim>\<open>int(time.time())\<close>.\<close>

definition add_from_message ::
  "env \<Rightarrow> int \<Rightarrow> message \<Rightarrow> int \<Rightarrow> int \<Rightarrow> channel option \<Rightarrow> airdrop op" where
  "add_from_message env now m amt duration ch =
     (let ad = from_message m amt (now + duration) ch in
      bindE (insert_one env (to_db_dict ad)) (\<lambda>_.
      bindE (cache_set (message_id ad) ad) (\<lambda>_.
      returnE ad)))"

text \<open>
  \<^verbatim>\<open>get_airdrop\<close>: an entity is returned as it is, an identifier is looked up with
  \<^verbatim>\<open>dict.get\<close>; \<^verbatim>\<open>if not ad\<close> catches the \<^verbatim>\<open>None\<close> of a missing key (an instance of a
  Python class is true unless the class says otherwise).
\<close>

definition get_airdrop :: "ref \<Rightarrow> airdrop op" where
  "get_airdrop r s =
     (case (case r of ById k \<Rightarrow> map_of (cache s) k | ByEntity a \<Rightarrow> Some a) of
        None \<Rightarrow> (Inl AirdropNotFound, s)
      | Some ad \<Rightarrow> (Inr ad, s))"

text \<open>\<^verbatim>\<open>_remove\<close>\<close>

definition remove :: "env \<Rightarrow> ref \<Rightarrow> unit op" where
  "remove env r =
     bindE (get_airdrop r) (\<lambda>ad.
     bindE (cache_del (message_id ad)) (\<lambda>_.
     bindE (external env (Unpin (channel_id ad) (message_id ad))) (\<lambda>_.
     delete_one env (message_id ad))))"

text \<open>\<^verbatim>\<open>_fetch\<close>, and \<^verbatim>\<open>update\<close>, which only calls it.\<close>

definition fetch :: "env \<Rightarrow> unit op" where
  "fetch env = bindE (fetch_db_state env) (\<lambda>fetched. cache_merge (dict_of fetched))"

definition update :: "env \<Rightarrow> unit op" where
  "update env = fetch env"

text \<open>
  \<^verbatim>\<open>new_airdrop\<close>. The embeds are presentation; \<^verbatim>\<open>channel or ctx.channel\<close> picks the
  context's channel when none is given. The coroutine has no \<^verbatim>\<open>return\<close> value.
\<close>

definition new_airdrop ::
  "env \<Rightarrow> int \<Rightarrow> app_context \<Rightarrow> int \<Rightarrow> int \<Rightarrow> channel option \<Rightarrow> unit op" where
  "new_airdrop env now ctx amt duration ch =
     bindE (can_afford env amt) (\<lambda>ok.
     if \<not> ok then external env (InsufficientFunds amt)
     else
       bindE (external env RespondConfirmed) (\<lambda>_.
       (let channel = (case ch of None \<Rightarrow> ctx_channel ctx | Some c \<Rightarrow> c) in
        bindE (send env channel) (\<lambda>root.
        bindE (add_from_message env now root amt duration (Some channel)) (\<lambda>ad.
        bindE (external env (EditView (msg_id root) ad)) (\<lambda>_.
        external env (Pin (msg_id root))))))))"

text \<open>\<^verbatim>\<open>cancel\<close>\<close>

definition cancel :: "env \<Rightarrow> ref \<Rightarrow> unit op" where
  "cancel env r =
     bindE (get_airdrop r) (\<lambda>ad.
     bindE (remove env (ByEntity ad)) (\<lambda>_.
     bindE (external env (FetchMessage (channel_id ad) (message_id ad))) (\<lambda>_.
     bindE (external env (Unpin (channel_id ad) (message_id ad))) (\<lambda>_.
     external env (EditCancelled (channel_id ad) (message_id ad))))))"

text \<open>\<^verbatim>\<open>resolve\<close>; \<^verbatim>\<open>airdrop.resolve(self.bot)\<close> is the distribution of the reward.\<close>

definition resolve :: "env \<Rightarrow> ref \<Rightarrow> unit op" where
  "resolve env r =
     bindE (get_airdrop r) (\<lambda>ad.
     bindE (external env (Distribute ad)) (\<lambda>_.
     remove env (ByEntity ad)))"

text \<open>The first loop of \<^verbatim>\<open>frame\<close>, over \<^verbatim>\<open>self._state.values()\<close>.\<close>

definition to_resolve :: "int \<Rightarrow> (int \<times> airdrop) list \<Rightarrow> airdrop list" where
  "to_resolve now c = filter (\<lambda>ad. ended now ad \<and> ends_in now ad \<le> 0) (map snd c)"

text \<open>The body of the second loop of \<^verbatim>\<open>frame\<close>: the logger call, then \<^verbatim>\<open>resolve\<close> on the
  entity.\<close>

definition dispatch :: "env \<Rightarrow> airdrop \<Rightarrow> unit op" where
  "dispatch env ad =
     bindE (external env (LogDispatch (message_id ad))) (\<lambda>_. resolve env (ByEntity ad))"

text \<open>The second loop of \<^verbatim>\<open>frame\<close>: an exception of \<^verbatim>\<open>resolve\<close> leaves the loop.\<close>

fun resolve_all :: "env \<Rightarrow> airdrop list \<Rightarrow> unit op" where
  "resolve_all env [] = returnE ()"
| "resolve_all env (ad # ads) = bindE (dispatch env ad) (\<lambda>_. resolve_all env ads)"

text \<open>\<^verbatim>\<open>frame\<close>; \<open>now\<close> is the clock read by \<^verbatim>\<open>ended\<close> and \<^verbatim>\<open>ends_in\<close>.\<close>

definition frame :: "env \<Rightarrow> int \<Rightarrow> unit op" where
  "frame env now =
     bindE (update env) (\<lambda>_ s. resolve_all env (to_resolve now (cache s)) s)"

section \<open>Well-formed states\<close>

text \<open>
  A Python dictionary holds a key once, and \<^verbatim>\<open>_add_from_message\<close> and \<^verbatim>\<open>_fetch\<close>, the only
  writers of \<^verbatim>\<open>self._state\<close>, file every airdrop under its own \<^verbatim>\<open>message_id\<close>.
\<close>

definition wf_cache :: "(int \<times> airdrop) list \<Rightarrow> bool" where
  "wf_cache c = (distinct (map fst c) \<and> (\<forall>(k, ad) \<in> set c. message_id ad = k))"

text \<open>The collection's \<^verbatim>\<open>_id\<close> index is unique.\<close>

definition wf :: "state \<Rightarrow> bool" where
  "wf s = (wf_cache (cache s) \<and> distinct (map d_id (store s)))"

text \<open>The trace entries that take an airdrop out of the cache or out of the store.\<close>

fun removal :: "entry \<Rightarrow> bool" where
  "removal (CacheDel k) = True"
| "removal (Returned (StoreDelete k)) = True"
| "removal e = False"

text \<open>The airdrop (by message identifier) that a call or a trace entry is about.\<close>

fun call_subject :: "call \<Rightarrow> int option" where
  "call_subject (EditView m ad) = Some m"
| "call_subject (Pin m) = Some m"
| "call_subject (StoreInsert d) = Some (d_id d)"
| "call_subject (StoreDelete k) = Some k"
| "call_subject (Distribute ad) = Some (message_id ad)"
| "call_subject (Unpin c m) = Some m"
| "call_subject (FetchMessage c m) = Some m"
| "call_subject (EditCancelled c m) = Some m"
| "call_subject (LogDispatch k) = Some k"
| "call_subject c = None"

fun concerns :: "int \<Rightarrow> entry \<Rightarrow> bool" where
  "concerns k (Returned c) = (call_subject c = Some k)"
| "concerns k (Raised c) = (call_subject c = Some k)"
| "concerns k (CacheSet k' ad) = (k' = k)"
| "concerns k (CacheDel k') = (k' = k)"
| "concerns k (CacheUpdate d) = (k \<in> fst ` set d)"

section \<open>Sample collaborators and states\<close>

text \<open>Collaborators that never fail, with funds for everything.\<close>

definition quiet :: env where
  "quiet = \<lparr>fails = (\<lambda>h c. False), affordable = (\<lambda>h a. True),
            sent = (\<lambda>h ch. \<lparr>msg_id = 13, msg_channel = ch\<rparr>)\<rparr>"

text \<open>Three airdrops, the first two ending at 1060, the third at 2000.\<close>

definition drop10 :: airdrop where
  "drop10 = \<lparr>guild_id = 1, channel_id = 2, message_id = 10, amount = 100, end_time = 1060,
             entrants = [5, 6]\<rparr>"

definition drop11 :: airdrop where
  "drop11 = \<lparr>guild_id = 1, channel_id = 2, message_id = 11, amount = 40, end_time = 1060,
             entrants = [7]\<rparr>"

definition drop12 :: airdrop where
  "drop12 = \<lparr>guild_id = 1, channel_id = 3, message_id = 12, amount = 5, end_time = 2000,
             entrants = []\<rparr>"

text \<open>A funds backend that fails on the first airdrop only.\<close>

definition funds_down :: env where
  "funds_down = quiet\<lparr>fails := (\<lambda>h c. c = Distribute drop10)\<rparr>"

text \<open>A funds backend that cannot afford anything.\<close>

definition broke :: env where
  "broke = quiet\<lparr>affordable := (\<lambda>h a. False)\<rparr>"

definition live :: state where
  "live = \<lparr>cache = [(10, drop10), (11, drop11), (12, drop12)],
           store = [to_db_dict drop10, to_db_dict drop11, to_db_dict drop12],
           trace = []\<rparr>"

text \<open>The manager right after \<^verbatim>\<open>__init__\<close>, with an empty collection.\<close>

definition blank :: state where
  "blank = \<lparr>cache = [], store = [], trace = []\<rparr>"

text \<open>The sample state when the collection has lost two of its documents.\<close>

definition lagging :: state where
  "lagging = live\<lparr>store := [to_db_dict drop11]\<rparr>"

text \<open>The sample state after an entrant has been added to the cached third airdrop but not
  to its document.\<close>

definition stale :: state where
  "stale = live\<lparr>cache := [(10, drop10), (11, drop11), (12, drop12\<lparr>entrants := [8]\<rparr>)]\<rparr>"

definition room :: channel where
  "room = \<lparr>ch_id = 2, ch_guild_id = 1\<rparr>"

definition anchor :: message where
  "anchor = \<lparr>msg_id = 13, msg_channel = room\<rparr>"

definition here :: app_context where
  "here = \<lparr>ctx_channel = room\<rparr>"

section \<open>Auxiliary facts\<close>

lemmas ops = bindE_def returnE_def external_def cache_set_def cache_del_def cache_merge_def
  insert_one_def delete_one_def find_all_def can_afford_def send_def get_airdrop_def

lemmas run = ops resolve_def cancel_def remove_def fetch_def fetch_db_state_def update_def
  frame_def dispatch_def add_from_message_def new_airdrop_def from_message_def to_db_dict_def
  of_doc_def dict_of_def to_resolve_def ended_def ends_in_def wf_cache_def wf_def
  quiet_def funds_down_def broke_def drop10_def drop11_def drop12_def live_def room_def
  anchor_def blank_def lagging_def stale_def here_def Let_def

lemma set_update_subset: "set (AList.update k v al) \<subseteq> insert (k, v) (set al)"
  by (induction al) auto

lemma wf_cache_set: "wf_cache c \<Longrightarrow> wf_cache (AList.update (message_id ad) ad c)"
  unfolding wf_cache_def using set_update_subset [of "message_id ad" ad c]
  by (auto simp: distinct_update)

lemma wf_cache_delete: "wf_cache c \<Longrightarrow> wf_cache (AList.delete k c)"
proof -
  assume wf: "wf_cache c"
  have "set (AList.delete k c) \<subseteq> set c"
    by (auto simp: AList.delete_eq)
  with wf show ?thesis
    unfolding wf_cache_def by (auto simp: distinct_delete)
qed

lemma map_of_rev_distinct: "distinct (map fst xs) \<Longrightarrow> map_of (rev xs) = map_of xs"
proof (induction xs)
  case Nil
  show ?case by simp
next
  case (Cons p xs)
  obtain k v where p: "p = (k, v)" by (cases p)
  from Cons.prems have k: "map_of xs k = None"
    by (simp add: p map_of_eq_None_iff)
  from Cons have IH: "map_of (rev xs) = map_of xs" by simp
  show ?case
    by (auto simp: p IH k fun_eq_iff map_add_def split: option.splits)
qed

lemma message_id_of_doc: "message_id (of_doc d) = d_id d"
  by (simp add: of_doc_def)

lemma wf_cache_dict_of_aux:
  "wf_cache d \<Longrightarrow> wf_cache (foldl (\<lambda>d ad. AList.update (message_id ad) ad d) d fetched)"
  by (induction fetched arbitrary: d) (auto simp: wf_cache_set)

lemma wf_cache_dict_of: "wf_cache (dict_of fetched)"
  unfolding dict_of_def by (rule wf_cache_dict_of_aux) (simp add: wf_cache_def)

lemma wf_cache_merge:
  "wf_cache c \<Longrightarrow> \<forall>(k, ad) \<in> set d. message_id ad = k \<Longrightarrow>
   wf_cache (foldl (\<lambda>c (k, v). AList.update k v c) c d)"
proof (induction d arbitrary: c)
  case Nil
  then show ?case by simp
next
  case (Cons p d)
  obtain k v where p: "p = (k, v)" by (cases p)
  with Cons.prems have "message_id v = k" by simp
  with Cons.prems(1) have "wf_cache (AList.update k v c)"
    using wf_cache_set [of c v] by simp
  with Cons show ?case by (simp add: p)
qed

lemma map_of_merge:
  "map_of (foldl (\<lambda>c (k, v). AList.update k v c) c d) = map_of c ++ map_of (rev d)"
proof (induction d arbitrary: c)
  case Nil
  then show ?case by simp
next
  case (Cons p d)
  obtain k v where p: "p = (k, v)" by (cases p)
  show ?case
    by (simp add: p Cons.IH update_conv' fun_eq_iff map_add_def split: option.splits)
qed

lemma map_of_dict_of_aux:
  "map_of (foldl (\<lambda>d ad. AList.update (message_id ad) ad d) d fetched)
   = map_of d ++ map_of (rev (map (\<lambda>ad. (message_id ad, ad)) fetched))"
proof (induction fetched arbitrary: d)
  case Nil
  then show ?case by simp
next
  case (Cons a fetched)
  show ?case
    by (simp add: Cons.IH update_conv' fun_eq_iff map_add_def split: option.splits)
qed

lemma map_of_dict_of:
  "map_of (dict_of fetched) = map_of (rev (map (\<lambda>ad. (message_id ad, ad)) fetched))"
  by (simp add: dict_of_def map_of_dict_of_aux)

lemma dict_of_keys: "fst ` set (dict_of fetched) = message_id ` set fetched"
proof -
  have "dom (map_of (dict_of fetched)) = message_id ` set fetched"
    by (simp add: map_of_dict_of dom_map_of_conv_image_fst image_image)
  then show ?thesis by (simp add: dom_map_of_conv_image_fst)
qed

lemma map_of_docs_distinct:
  assumes "distinct (map d_id ds)" and "d \<in> set ds"
  shows "map_of (dict_of (map of_doc ds)) (d_id d) = Some (of_doc d)"
proof -
  let ?al = "rev (map (\<lambda>d. (d_id d, of_doc d)) ds)"
  have eq: "map_of (dict_of (map of_doc ds)) = map_of ?al"
    by (simp add: map_of_dict_of o_def message_id_of_doc)
  have "distinct (map fst ?al)"
    using assms(1) by (simp add: rev_map [symmetric] o_def)
  moreover have "(d_id d, of_doc d) \<in> set ?al"
    using assms(2) by auto
  ultimately have "map_of ?al (d_id d) = Some (of_doc d)"
    by (rule map_of_is_SomeI)
  with eq show ?thesis by simp
qed

lemma set_delete_first: "set (delete_first k ds) \<subseteq> set ds"
  by (induction ds) auto

lemma distinct_delete_first: "distinct (map d_id ds) \<Longrightarrow> distinct (map d_id (delete_first k ds))"
proof (induction ds)
  case Nil
  then show ?case by simp
next
  case (Cons d ds)
  then show ?case using set_delete_first [of k ds] by auto
qed

lemma delete_first_gone: "distinct (map d_id ds) \<Longrightarrow> k \<notin> d_id ` set (delete_first k ds)"
  by (induction ds) auto

lemma delete_first_other: "d \<in> set ds \<Longrightarrow> d_id d \<noteq> k \<Longrightarrow> d \<in> set (delete_first k ds)"
  by (induction ds) auto

lemma fetch_result:
  "fetch env s =
     (if fails env (trace s) StoreFind
      then (Inl (CallFailed StoreFind), s\<lparr>trace := trace s @ [Raised StoreFind]\<rparr>)
      else (Inr (), s\<lparr>cache := foldl (\<lambda>c (k, v). AList.update k v c) (cache s)
                                  (dict_of (map of_doc (store s))),
                      trace := trace s @ [Returned StoreFind,
                                          CacheUpdate (dict_of (map of_doc (store s)))]\<rparr>))"
  by (simp add: fetch_def fetch_db_state_def ops)

lemma remove_entity_result:
  "remove env (ByEntity ad) s =
     (if map_of (cache s) (message_id ad) = None then (Inl KeyError, s)
      else if fails env (trace s @ [CacheDel (message_id ad)]) (Unpin (channel_id ad) (message_id ad))
      then (Inl (CallFailed (Unpin (channel_id ad) (message_id ad))),
            s\<lparr>cache := AList.delete (message_id ad) (cache s),
              trace := trace s @ [CacheDel (message_id ad),
                                  Raised (Unpin (channel_id ad) (message_id ad))]\<rparr>)
      else if fails env (trace s @ [CacheDel (message_id ad),
                                    Returned (Unpin (channel_id ad) (message_id ad))])
                (StoreDelete (message_id ad))
      then (Inl (CallFailed (StoreDelete (message_id ad))),
            s\<lparr>cache := AList.delete (message_id ad) (cache s),
              trace := trace s @ [CacheDel (message_id ad),
                                  Returned (Unpin (channel_id ad) (message_id ad)),
                                  Raised (StoreDelete (message_id ad))]\<rparr>)
      else (Inr (),
            s\<lparr>cache := AList.delete (message_id ad) (cache s),
              store := delete_first (message_id ad) (store s),
              trace := trace s @ [CacheDel (message_id ad),
                                  Returned (Unpin (channel_id ad) (message_id ad)),
                                  Returned (StoreDelete (message_id ad))]\<rparr>))"
  by (simp add: remove_def ops)

lemma remove_success:
  assumes "remove env (ByEntity ad) s = (Inr (), s')"
  shows "cache s' = AList.delete (message_id ad) (cache s)
       \<and> store s' = delete_first (message_id ad) (store s)"
  using assms by (auto simp: remove_entity_result split: if_splits)

lemma by_id_lookup:
  "get_airdrop (ById k) s = (case map_of (cache s) k of None \<Rightarrow> (Inl AirdropNotFound, s) | Some ad \<Rightarrow> (Inr ad, s))"
  by (simp add: get_airdrop_def)

lemma not_found:
  assumes "map_of (cache s) k = None"
  shows "resolve env (ById k) s = (Inl AirdropNotFound, s)"
    and "cancel env (ById k) s = (Inl AirdropNotFound, s)"
  using assms by (simp_all add: resolve_def cancel_def bindE_def by_id_lookup)

lemma success_removes:
  assumes "resolve env (ById k) s = (Inr (), s') \<or> cancel env (ById k) s = (Inr (), s')"
  shows "\<exists>ad. map_of (cache s) k = Some ad
            \<and> cache s' = AList.delete (message_id ad) (cache s)
            \<and> store s' = delete_first (message_id ad) (store s)"
proof (cases "map_of (cache s) k")
  case None
  with assms show ?thesis using not_found [of s k env] by auto
next
  case (Some ad)
  from assms show ?thesis
  proof
    assume "resolve env (ById k) s = (Inr (), s')"
    then obtain s1 where "remove env (ByEntity ad) s1 = (Inr (), s')"
      and "cache s1 = cache s" and "store s1 = store s"
      using Some by (auto simp: resolve_def bindE_def by_id_lookup external_def split: if_splits)
    then show ?thesis using Some remove_success [of env ad s1 s'] by simp
  next
    assume "cancel env (ById k) s = (Inr (), s')"
    then obtain s1 where "remove env (ByEntity ad) s = (Inr (), s1)"
      and "cache s' = cache s1" and "store s' = store s1"
      using Some
      by (auto simp: cancel_def bindE_def by_id_lookup external_def split: if_splits prod.splits sum.splits)
    then show ?thesis using Some remove_success [of env ad s s1] by simp
  qed
qed

lemma fetch_lookup:
  assumes "fetch env s = (Inr (), s')"
  shows "map_of (cache s') k =
           (case map_of (dict_of (map of_doc (store s))) k of
              None \<Rightarrow> map_of (cache s) k | Some ad \<Rightarrow> Some ad)"
proof -
  let ?d = "dict_of (map of_doc (store s))"
  from assms have "cache s' = foldl (\<lambda>c (k, v). AList.update k v c) (cache s) ?d"
    by (auto simp: fetch_result split: if_splits)
  then have "map_of (cache s') = map_of (cache s) ++ map_of ?d"
    using wf_cache_dict_of [of "map of_doc (store s)"]
    by (simp add: map_of_merge map_of_rev_distinct wf_cache_def)
  then show ?thesis by (simp add: map_add_def)
qed

lemma dict_of_absent:
  assumes "k \<notin> d_id ` set ds"
  shows "map_of (dict_of (map of_doc ds)) k = None"
proof -
  have "k \<notin> fst ` set (dict_of (map of_doc ds))"
    using assms by (simp add: dict_of_keys image_image message_id_of_doc)
  then show ?thesis by (simp add: map_of_eq_None_iff)
qed


lemma resolve_all_Cons:
  "resolve_all env (ad # ads) s =
     (case dispatch env ad s of (Inl e, s1) \<Rightarrow> (Inl e, s1) | (Inr u, s1) \<Rightarrow> resolve_all env ads s1)"
  by (simp add: bindE_def split: prod.splits sum.splits)

lemma dispatch_trace:
  assumes "dispatch env ad s = (res, s')"
  shows "\<exists>new. trace s' = trace s @ new
     \<and> (\<forall>e \<in> set new. \<forall>k. concerns k e \<longrightarrow> k = message_id ad)
     \<and> (\<forall>a. Returned (Distribute a) \<in> set new \<or> Raised (Distribute a) \<in> set new \<longrightarrow> a = ad)
     \<and> (res = Inr () \<longrightarrow>
           Returned (LogDispatch (message_id ad)) \<in> set new
         \<and> Returned (Distribute ad) \<in> set new
         \<and> Returned (StoreDelete (message_id ad)) \<in> set new)"
  using assms
  by (auto simp: dispatch_def resolve_def remove_entity_result bindE_def external_def
      get_airdrop_def split: if_splits)

lemma dispatch_cache:
  assumes "dispatch env ad s = (res, s')"
  shows "(\<forall>k. k \<noteq> message_id ad \<longrightarrow> map_of (cache s') k = map_of (cache s) k)
     \<and> (\<forall>k. map_of (cache s) k = None \<longrightarrow> map_of (cache s') k = None)
     \<and> (res = Inr () \<longrightarrow> map_of (cache s') (message_id ad) = None)"
  using assms
  by (auto simp: dispatch_def resolve_def remove_entity_result bindE_def external_def
      get_airdrop_def delete_conv' split: if_splits)

lemma dispatch_store:
  assumes "dispatch env ad s = (res, s')"
  shows "(\<forall>d \<in> set (store s). d_id d \<noteq> message_id ad \<longrightarrow> d \<in> set (store s'))
     \<and> set (store s') \<subseteq> set (store s)
     \<and> (distinct (map d_id (store s)) \<longrightarrow> distinct (map d_id (store s')))
     \<and> (res = Inr () \<longrightarrow> distinct (map d_id (store s)) \<longrightarrow>
           message_id ad \<notin> d_id ` set (store s'))"
  using assms set_delete_first [of "message_id ad" "store s"]
    delete_first_gone [of "store s" "message_id ad"]
  by (auto simp: dispatch_def resolve_def remove_entity_result bindE_def external_def
      get_airdrop_def delete_first_other distinct_delete_first split: if_splits)

lemma resolve_all_trace:
  "resolve_all env ads s = (res, s') \<Longrightarrow>
   \<exists>new. trace s' = trace s @ new
     \<and> (\<forall>e \<in> set new. \<forall>k. concerns k e \<longrightarrow> k \<in> message_id ` set ads)
     \<and> (\<forall>a. Returned (Distribute a) \<in> set new \<or> Raised (Distribute a) \<in> set new \<longrightarrow> a \<in> set ads)
     \<and> (res = Inr () \<longrightarrow> (\<forall>a \<in> set ads.
           Returned (LogDispatch (message_id a)) \<in> set new
         \<and> Returned (Distribute a) \<in> set new
         \<and> Returned (StoreDelete (message_id a)) \<in> set new))"
proof (induction ads arbitrary: s)
  case Nil
  then show ?case by (simp add: returnE_def)
next
  case (Cons ad ads)
  obtain r1 s1 where d: "dispatch env ad s = (r1, s1)" by (cases "dispatch env ad s")
  from Cons.prems have run:
    "(case dispatch env ad s of (Inl e, s1) \<Rightarrow> (Inl e, s1)
      | (Inr u, s1) \<Rightarrow> resolve_all env ads s1) = (res, s')"
    by (simp only: resolve_all_Cons)
  from dispatch_trace [OF d] obtain n1 where n1: "trace s1 = trace s @ n1"
    and c1: "\<forall>e \<in> set n1. \<forall>k. concerns k e \<longrightarrow> k = message_id ad"
    and d1: "\<forall>a. Returned (Distribute a) \<in> set n1 \<or> Raised (Distribute a) \<in> set n1 \<longrightarrow> a = ad"
    and ok1: "r1 = Inr () \<longrightarrow>
           Returned (LogDispatch (message_id ad)) \<in> set n1
         \<and> Returned (Distribute ad) \<in> set n1
         \<and> Returned (StoreDelete (message_id ad)) \<in> set n1"
    by blast
  show ?case
  proof (cases r1)
    case (Inl e)
    with run d have "res = Inl e" and "s' = s1" by simp_all
    with n1 c1 d1 show ?thesis by auto
  next
    case (Inr u)
    with run d have rest: "resolve_all env ads s1 = (res, s')" by simp
    from Cons.IH [OF rest] obtain n2 where n2: "trace s' = trace s1 @ n2"
      and c2: "\<forall>e \<in> set n2. \<forall>k. concerns k e \<longrightarrow> k \<in> message_id ` set ads"
      and d2: "\<forall>a. Returned (Distribute a) \<in> set n2 \<or> Raised (Distribute a) \<in> set n2 \<longrightarrow> a \<in> set ads"
      and ok2: "res = Inr () \<longrightarrow> (\<forall>a \<in> set ads.
           Returned (LogDispatch (message_id a)) \<in> set n2
         \<and> Returned (Distribute a) \<in> set n2
         \<and> Returned (StoreDelete (message_id a)) \<in> set n2)"
      by blast
    have t: "trace s' = trace s @ (n1 @ n2)" by (simp add: n1 n2)
    have c: "\<forall>e \<in> set (n1 @ n2). \<forall>k. concerns k e \<longrightarrow> k \<in> message_id ` set (ad # ads)"
      using c1 c2 by auto
    have dd: "\<forall>a. Returned (Distribute a) \<in> set (n1 @ n2) \<or> Raised (Distribute a) \<in> set (n1 @ n2)
                \<longrightarrow> a \<in> set (ad # ads)"
      using d1 d2 by auto
    have ok: "res = Inr () \<longrightarrow> (\<forall>a \<in> set (ad # ads).
           Returned (LogDispatch (message_id a)) \<in> set (n1 @ n2)
         \<and> Returned (Distribute a) \<in> set (n1 @ n2)
         \<and> Returned (StoreDelete (message_id a)) \<in> set (n1 @ n2))"
      using ok1 ok2 Inr by auto
    from t c dd ok show ?thesis by blast
  qed
qed

lemma resolve_all_cache:
  "resolve_all env ads s = (res, s') \<Longrightarrow>
     (\<forall>k. k \<notin> message_id ` set ads \<longrightarrow> map_of (cache s') k = map_of (cache s) k)
   \<and> (\<forall>k. map_of (cache s) k = None \<longrightarrow> map_of (cache s') k = None)
   \<and> (res = Inr () \<longrightarrow> (\<forall>a \<in> set ads. map_of (cache s') (message_id a) = None))"
proof (induction ads arbitrary: s)
  case Nil
  then show ?case by (simp add: returnE_def)
next
  case (Cons ad ads)
  obtain r1 s1 where d: "dispatch env ad s = (r1, s1)" by (cases "dispatch env ad s")
  from Cons.prems have run:
    "(case dispatch env ad s of (Inl e, s1) \<Rightarrow> (Inl e, s1)
      | (Inr u, s1) \<Rightarrow> resolve_all env ads s1) = (res, s')"
    by (simp only: resolve_all_Cons)
  note one = dispatch_cache [OF d]
  show ?case
  proof (cases r1)
    case (Inl e)
    with run d have "res = Inl e" and "s' = s1" by simp_all
    with one show ?thesis by simp
  next
    case (Inr u)
    with run d have rest: "resolve_all env ads s1 = (res, s')" by simp
    from Cons.IH [OF rest] one Inr show ?thesis by simp
  qed
qed

lemma resolve_all_store:
  "resolve_all env ads s = (res, s') \<Longrightarrow>
     (\<forall>d \<in> set (store s). d_id d \<notin> message_id ` set ads \<longrightarrow> d \<in> set (store s'))
   \<and> set (store s') \<subseteq> set (store s)
   \<and> (distinct (map d_id (store s)) \<longrightarrow> distinct (map d_id (store s')))
   \<and> (res = Inr () \<longrightarrow> distinct (map d_id (store s)) \<longrightarrow>
         (\<forall>a \<in> set ads. message_id a \<notin> d_id ` set (store s')))"
proof (induction ads arbitrary: s)
  case Nil
  then show ?case by (simp add: returnE_def)
next
  case (Cons ad ads)
  obtain r1 s1 where d: "dispatch env ad s = (r1, s1)" by (cases "dispatch env ad s")
  from Cons.prems have run:
    "(case dispatch env ad s of (Inl e, s1) \<Rightarrow> (Inl e, s1)
      | (Inr u, s1) \<Rightarrow> resolve_all env ads s1) = (res, s')"
    by (simp only: resolve_all_Cons)
  note one = dispatch_store [OF d]
  show ?case
  proof (cases r1)
    case (Inl e)
    with run d have "res = Inl e" and "s' = s1" by simp_all
    with one show ?thesis by simp
  next
    case (Inr u)
    with run d have rest: "resolve_all env ads s1 = (res, s')" by simp
    note more = Cons.IH [OF rest]
    have a: "\<forall>d \<in> set (store s). d_id d \<notin> message_id ` set (ad # ads) \<longrightarrow> d \<in> set (store s')"
      using one more by simp
    have b: "set (store s') \<subseteq> set (store s)"
      using one more by blast
    have c: "distinct (map d_id (store s)) \<longrightarrow> distinct (map d_id (store s'))"
      using one more by blast
    have e: "res = Inr () \<longrightarrow> distinct (map d_id (store s)) \<longrightarrow>
         (\<forall>a \<in> set (ad # ads). message_id a \<notin> d_id ` set (store s'))"
      using one more Inr by auto
    from a b c e show ?thesis by blast
  qed
qed

lemma resolve_all_append:
  "resolve_all env (xs @ ys) s =
     (case resolve_all env xs s of (Inl e, s1) \<Rightarrow> (Inl e, s1)
      | (Inr u, s1) \<Rightarrow> resolve_all env ys s1)"
  by (induction xs arbitrary: s) (auto simp: bindE_def returnE_def split: prod.splits sum.splits)

lemma due_iff: "(ended now ad \<and> ends_in now ad \<le> 0) = (end_time ad \<le> now)"
  by (auto simp: ended_def ends_in_def)

lemma wf_cache_values:
  assumes "wf_cache c"
  shows "map message_id (map snd c) = map fst c"
  using assms by (induction c) (auto simp: wf_cache_def)

lemma to_resolve_distinct:
  assumes "wf_cache c"
  shows "distinct (map message_id (to_resolve now c))"
proof -
  have "distinct (map message_id (map snd c))"
    using assms by (simp only: wf_cache_values) (simp add: wf_cache_def)
  then show ?thesis
    unfolding to_resolve_def by (rule distinct_map_filter)
qed

lemma wf_cache_lookup:
  assumes "wf_cache c" and "(k, ad) \<in> set c"
  shows "map_of c k = Some ad" and "message_id ad = k"
  using assms by (auto simp: wf_cache_def)

lemma fetch_wf_cache:
  assumes "fetch env s = (res, s')" and "wf_cache (cache s)"
  shows "wf_cache (cache s')"
proof -
  have "\<forall>(k, ad) \<in> set (dict_of (map of_doc (store s))). message_id ad = k"
    using wf_cache_dict_of [of "map of_doc (store s)"] by (simp add: wf_cache_def)
  with assms(2)
  have "wf_cache (foldl (\<lambda>c (k, v). AList.update k v c) (cache s) (dict_of (map of_doc (store s))))"
    by (rule wf_cache_merge)
  with assms show ?thesis by (auto simp: fetch_result split: if_splits)
qed

lemma frame_after_update:
  assumes "update env s = (Inr (), s1)"
  shows "frame env now s = resolve_all env (to_resolve now (cache s1)) s1"
  using assms by (simp add: frame_def bindE_def)

lemma to_resolve_set:
  "set (to_resolve now c) = {ad \<in> snd ` set c. end_time ad \<le> now}"
  by (auto simp: to_resolve_def due_iff)

subsection \<open>Well-formedness is kept by every operation\<close>

lemma wf_blank: "wf blank"
  by (simp add: wf_def wf_cache_def blank_def)

lemma external_frame:
  assumes "external env c s = (r, s')"
  shows "cache s' = cache s \<and> store s' = store s"
  using assms by (auto simp: external_def split: if_splits)

lemma external_wf: "wf s \<Longrightarrow> external env c s = (r, s') \<Longrightarrow> wf s'"
  using external_frame [of env c s r s'] by (simp add: wf_def)

lemma add_from_message_wf:
  assumes "wf s" and "add_from_message env now m amt duration ch s = (r, s')"
  shows "wf s'"
proof -
  let ?ad = "from_message m amt (now + duration) ch"
  have id: "d_id (to_db_dict ?ad) = message_id ?ad"
    by (simp add: to_db_dict_def)
  from assms(1) have "wf_cache (AList.update (message_id ?ad) ?ad (cache s))"
    by (simp add: wf_def wf_cache_set)
  with assms id show ?thesis
    by (auto simp: add_from_message_def Let_def bindE_def returnE_def insert_one_def
        cache_set_def wf_def split: if_splits)
qed

lemma get_airdrop_cases:
  "get_airdrop r s = (Inl AirdropNotFound, s) \<or> (\<exists>ad. get_airdrop r s = (Inr ad, s))"
  by (cases r) (auto simp: get_airdrop_def split: option.splits)

lemma remove_wf:
  assumes "wf s" and "remove env r s = (res, s')"
  shows "wf s'"
proof -
  from get_airdrop_cases [of r s] show ?thesis
  proof
    assume "get_airdrop r s = (Inl AirdropNotFound, s)"
    with assms show ?thesis by (simp add: remove_def bindE_def)
  next
    assume "\<exists>ad. get_airdrop r s = (Inr ad, s)"
    then obtain ad where "get_airdrop r s = (Inr ad, s)" ..
    then have "remove env r s = remove env (ByEntity ad) s"
      by (simp add: remove_def bindE_def get_airdrop_def)
    with assms show ?thesis
      by (auto simp: remove_entity_result wf_def wf_cache_delete distinct_delete_first
          split: if_splits)
  qed
qed

lemma resolve_wf:
  assumes "wf s" and "resolve env r s = (res, s')"
  shows "wf s'"
proof (cases "get_airdrop r s")
  case (Pair x s0)
  then have s0: "s0 = s" by (auto simp: get_airdrop_def split: option.splits)
  show ?thesis
  proof (cases x)
    case (Inl e)
    with Pair s0 assms show ?thesis by (simp add: resolve_def bindE_def)
  next
    case (Inr ad)
    obtain r1 s1 where d: "external env (Distribute ad) s = (r1, s1)"
      by (cases "external env (Distribute ad) s")
    with assms(1) have w1: "wf s1" by (rule external_wf)
    show ?thesis
    proof (cases r1)
      case (Inl e)
      with Pair s0 Inr d assms(2) w1 show ?thesis by (simp add: resolve_def bindE_def)
    next
      case u: (Inr u)
      with Pair s0 Inr d assms(2) have "remove env (ByEntity ad) s1 = (res, s')"
        by (simp add: resolve_def bindE_def)
      with w1 show ?thesis by (rule remove_wf)
    qed
  qed
qed

lemma dispatch_wf:
  assumes "wf s" and "dispatch env ad s = (res, s')"
  shows "wf s'"
proof -
  obtain r1 s1 where l: "external env (LogDispatch (message_id ad)) s = (r1, s1)"
    by (cases "external env (LogDispatch (message_id ad)) s")
  with assms(1) have w1: "wf s1" by (rule external_wf)
  show ?thesis
  proof (cases r1)
    case (Inl e)
    with l assms(2) w1 show ?thesis by (simp add: dispatch_def bindE_def)
  next
    case (Inr u)
    with l assms(2) have "resolve env (ByEntity ad) s1 = (res, s')"
      by (simp add: dispatch_def bindE_def)
    with w1 show ?thesis by (rule resolve_wf)
  qed
qed

lemma resolve_all_wf: "wf s \<Longrightarrow> resolve_all env ads s = (res, s') \<Longrightarrow> wf s'"
proof (induction ads arbitrary: s)
  case Nil
  then show ?case by (simp add: returnE_def)
next
  case (Cons ad ads)
  obtain r1 s1 where d: "dispatch env ad s = (r1, s1)" by (cases "dispatch env ad s")
  with Cons.prems(1) have w1: "wf s1" by (rule dispatch_wf)
  from Cons.prems(2) have run:
    "(case dispatch env ad s of (Inl e, s1) \<Rightarrow> (Inl e, s1)
      | (Inr u, s1) \<Rightarrow> resolve_all env ads s1) = (res, s')"
    by (simp only: resolve_all_Cons)
  show ?case
  proof (cases r1)
    case (Inl e)
    with run d w1 show ?thesis by simp
  next
    case (Inr u)
    with run d have "resolve_all env ads s1 = (res, s')" by simp
    with w1 show ?thesis by (rule Cons.IH)
  qed
qed

lemma fetch_wf:
  assumes "wf s" and "fetch env s = (res, s')"
  shows "wf s'"
proof -
  from assms have "wf_cache (cache s')"
    using fetch_wf_cache [of env s res s'] by (simp add: wf_def)
  moreover from assms(2) have "store s' = store s"
    by (auto simp: fetch_result split: if_splits)
  ultimately show ?thesis using assms(1) by (simp add: wf_def)
qed

lemma frame_wf:
  assumes "wf s" and "frame env now s = (res, s')"
  shows "wf s'"
proof -
  obtain r1 s1 where u: "fetch env s = (r1, s1)" by (cases "fetch env s")
  with assms(1) have w1: "wf s1" by (rule fetch_wf)
  show ?thesis
  proof (cases r1)
    case (Inl e)
    with u assms(2) w1 show ?thesis by (simp add: frame_def update_def bindE_def)
  next
    case (Inr x)
    with u assms(2) have "resolve_all env (to_resolve now (cache s1)) s1 = (res, s')"
      by (simp add: frame_def update_def bindE_def)
    with w1 show ?thesis by (rule resolve_all_wf)
  qed
qed

lemma cancel_wf:
  assumes "wf s" and "cancel env r s = (res, s')"
  shows "wf s'"
proof (cases "get_airdrop r s")
  case (Pair x s0)
  then have s0: "s0 = s" by (auto simp: get_airdrop_def split: option.splits)
  show ?thesis
  proof (cases x)
    case (Inl e)
    with Pair s0 assms show ?thesis by (simp add: cancel_def bindE_def)
  next
    case (Inr ad)
    obtain r1 s1 where d: "remove env (ByEntity ad) s = (r1, s1)"
      by (cases "remove env (ByEntity ad) s")
    with assms(1) have w1: "wf s1" by (rule remove_wf)
    from Pair s0 Inr d assms(2) have "cache s' = cache s1 \<and> store s' = store s1"
      by (auto simp: cancel_def bindE_def external_def split: sum.splits if_splits)
    with w1 show ?thesis by (simp add: wf_def)
  qed
qed

lemma add_from_message_success:
  assumes "add_from_message env now m amt duration ch s = (Inr ad, s')"
  shows "ad = from_message m amt (now + duration) ch"
    and "cache s' = AList.update (message_id ad) ad (cache s)"
    and "store s' = store s @ [to_db_dict ad]"
    and "trace s' = trace s @ [Returned (StoreInsert (to_db_dict ad)), CacheSet (message_id ad) ad]"
  using assms
  by (auto simp: add_from_message_def ops Let_def split: if_splits)

lemma new_airdrop_wf:
  assumes "wf s" and "new_airdrop env now ctx amt duration ch s = (res, s')"
  shows "wf s'"
proof -
  let ?loc = "case ch of None \<Rightarrow> ctx_channel ctx | Some c \<Rightarrow> c"
  obtain r0 s0 where q: "can_afford env amt s = (r0, s0)" by (cases "can_afford env amt s")
  with assms(1) have w0: "wf s0"
    by (auto simp: can_afford_def wf_def split: if_splits)
  show ?thesis
  proof (cases r0)
    case (Inl e)
    with q assms(2) w0 show ?thesis by (simp add: new_airdrop_def bindE_def)
  next
    case (Inr ok)
    show ?thesis
    proof (cases ok)
      case False
      with Inr q assms(2) have "external env (InsufficientFunds amt) s0 = (res, s')"
        by (simp add: new_airdrop_def bindE_def)
      with w0 show ?thesis by (rule external_wf)
    next
      case True
      obtain r1 s1 where c: "external env RespondConfirmed s0 = (r1, s1)"
        by (cases "external env RespondConfirmed s0")
      with w0 have w1: "wf s1" by (rule external_wf)
      obtain r2 s2 where sd: "send env ?loc s1 = (r2, s2)"
        by (cases "send env ?loc s1")
      with w1 have w2: "wf s2"
        by (auto simp: send_def wf_def split: if_splits)
      show ?thesis
      proof (cases "\<exists>root. r1 = Inr () \<and> r2 = Inr root")
        case False
        with True Inr q assms(2) c sd w1 w2 show ?thesis
          by (cases r1; cases r2) (auto simp: new_airdrop_def bindE_def Let_def)
      next
        case yes: True
        then obtain root where r1: "r1 = Inr ()" and r2: "r2 = Inr root" by blast
        obtain r3 s3 where mk: "add_from_message env now root amt duration (Some ?loc) s2 = (r3, s3)"
          by (cases "add_from_message env now root amt duration (Some ?loc) s2")
        with w2 have w3: "wf s3" by (rule add_from_message_wf)
        show ?thesis
        proof (cases r3)
          case (Inl e)
          with True Inr q assms(2) c sd r1 r2 mk w3 show ?thesis
            by (simp add: new_airdrop_def bindE_def Let_def)
        next
          case ad: (Inr ad)
          with True Inr q assms(2) c sd r1 r2 mk
          have "bindE (external env (EditView (msg_id root) ad))
                      (\<lambda>_. external env (Pin (msg_id root))) s3 = (res, s')"
            by (simp add: new_airdrop_def bindE_def Let_def)
          then have "cache s' = cache s3 \<and> store s' = store s3"
            by (auto simp: bindE_def external_def split: if_splits)
          with w3 show ?thesis by (simp add: wf_def)
        qed
      qed
    qed
  qed
qed

subsection \<open>Removal by any reference, and the sweep after its refresh\<close>



lemma sweep_after_refresh:
  assumes wfs: "wf s"
    and up: "update env s = (Inr (), s1)"
    and fr: "frame env now s = (res, s')"
  shows "to_resolve now (cache s1) = filter (\<lambda>ad. end_time ad \<le> now) (map snd (cache s1))
    \<and> (\<exists>new. trace s' = trace s1 @ new
        \<and> (\<forall>a. Returned (Distribute a) \<in> set new \<or> Raised (Distribute a) \<in> set new \<longrightarrow>
              a \<in> snd ` set (cache s1) \<and> end_time a \<le> now)
        \<and> (\<forall>(k, ad) \<in> set (cache s1). now < end_time ad \<longrightarrow>
              map_of (cache s') k = Some ad
            \<and> (\<forall>d \<in> set (store s1). d_id d = k \<longrightarrow> d \<in> set (store s'))
            \<and> (\<forall>e \<in> set new. \<not> concerns k e))
        \<and> (res = Inr () \<longrightarrow> (\<forall>(k, ad) \<in> set (cache s1). end_time ad \<le> now \<longrightarrow>
              Returned (Distribute ad) \<in> set new
            \<and> map_of (cache s') k = None
            \<and> k \<notin> d_id ` set (store s'))))"
proof -
  let ?ads = "to_resolve now (cache s1)"
  have sel: "?ads = filter (\<lambda>ad. end_time ad \<le> now) (map snd (cache s1))"
    by (simp add: to_resolve_def due_iff)
  from up have f: "fetch env s = (Inr (), s1)"
    by (simp add: update_def)
  from wfs have "wf_cache (cache s)" and ds: "distinct (map d_id (store s))"
    by (simp_all add: wf_def)
  with f have wf1: "wf_cache (cache s1)"
    using fetch_wf_cache by blast
  from f have "store s1 = store s"
    by (auto simp: fetch_result split: if_splits)
  with ds have ds1: "distinct (map d_id (store s1))"
    by simp
  from up fr have run: "resolve_all env ?ads s1 = (res, s')"
    by (simp add: frame_after_update)
  from resolve_all_trace [OF run] obtain new where t: "trace s' = trace s1 @ new"
    and con: "\<forall>e \<in> set new. \<forall>k. concerns k e \<longrightarrow> k \<in> message_id ` set ?ads"
    and dis: "\<forall>a. Returned (Distribute a) \<in> set new \<or> Raised (Distribute a) \<in> set new \<longrightarrow> a \<in> set ?ads"
    and ok: "res = Inr () \<longrightarrow> (\<forall>a \<in> set ?ads.
           Returned (LogDispatch (message_id a)) \<in> set new
         \<and> Returned (Distribute a) \<in> set new
         \<and> Returned (StoreDelete (message_id a)) \<in> set new)"
    by blast
  note c = resolve_all_cache [OF run]
  note st = resolve_all_store [OF run]
  have a: "\<forall>a. Returned (Distribute a) \<in> set new \<or> Raised (Distribute a) \<in> set new \<longrightarrow>
              a \<in> snd ` set (cache s1) \<and> end_time a \<le> now"
    using dis by (simp add: to_resolve_set)
  have later: "map_of (cache s') k = Some ad
            \<and> (\<forall>d \<in> set (store s1). d_id d = k \<longrightarrow> d \<in> set (store s'))
            \<and> (\<forall>e \<in> set new. \<not> concerns k e)"
    if mem: "(k, ad) \<in> set (cache s1)" and fut: "now < end_time ad" for k ad
  proof -
    have look: "map_of (cache s1) k = Some ad"
      using wf1 mem by (rule wf_cache_lookup)
    have out: "k \<notin> message_id ` set ?ads"
    proof
      assume "k \<in> message_id ` set ?ads"
      then obtain a where a: "a \<in> set ?ads" and k: "message_id a = k" by auto
      from a obtain k' where m: "(k', a) \<in> set (cache s1)" and due: "end_time a \<le> now"
        by (auto simp: to_resolve_set)
      from wf1 m have "map_of (cache s1) k' = Some a" and "message_id a = k'"
        by (rule wf_cache_lookup)+
      with k look have "a = ad" by simp
      with due fut show False by simp
    qed
    with c look st con show ?thesis by auto
  qed
  have due: "Returned (Distribute ad) \<in> set new
            \<and> map_of (cache s') k = None
            \<and> k \<notin> d_id ` set (store s')"
    if mem: "(k, ad) \<in> set (cache s1)" and past: "end_time ad \<le> now" and fine: "res = Inr ()"
    for k ad
  proof -
    from mem past have "ad \<in> set ?ads"
      by (force simp: to_resolve_set)
    moreover from wf1 mem have "message_id ad = k"
      by (rule wf_cache_lookup)
    ultimately show ?thesis
      using ok c st fine ds1 by auto
  qed
  from sel t a later due show ?thesis by blast
qed

section \<open>Claims\<close>




text \<open>
  C2, as amended. Expiry detection: a sweep refreshes the cache from the store first; when
  the refresh fails the sweep ends with that failure and the cache and the store
  unchanged. Otherwise the refresh has overwritten the cached entries of the stored
  identifiers, and of the cache as refreshed the sweep sets out to resolve exactly the
  airdrops whose end time is at most the current time, and attempts a distribution for
  no other airdrop. An airdrop of the refreshed cache that ends in the future, and so
  every airdrop cached before the sweep that ends in the future and agrees with its
  stored document if there is one, is left as it is whatever the outcome: it stays in
  the cache unchanged, its document stays in the store, and no trace entry after the
  refresh is about it. When the sweep completes without a failure, every due airdrop has
  had its reward distributed and is gone from the cache and from the store.
\<close>

theorem sweep_expiry_detection:
  assumes wfs: "wf s"
    and up: "update env s = (r1, s1)"
    and fr: "frame env now s = (res, s')"
  shows "(r1 \<noteq> Inr () \<longrightarrow> res = r1 \<and> s' = s1 \<and> cache s' = cache s \<and> store s' = store s)
    \<and> (r1 = Inr () \<longrightarrow>
         (\<forall>k. map_of (cache s1) k =
               (case map_of (dict_of (map of_doc (store s))) k of
                  None \<Rightarrow> map_of (cache s) k | Some ad \<Rightarrow> Some ad))
       \<and> to_resolve now (cache s1) = filter (\<lambda>ad. end_time ad \<le> now) (map snd (cache s1))
       \<and> (\<exists>new. trace s' = trace s1 @ new
          \<and> (\<forall>a. Returned (Distribute a) \<in> set new \<or> Raised (Distribute a) \<in> set new \<longrightarrow>
                a \<in> snd ` set (cache s1) \<and> end_time a \<le> now)
          \<and> (\<forall>(k, ad) \<in> set (cache s1). now < end_time ad \<longrightarrow>
                map_of (cache s') k = Some ad
              \<and> (\<forall>d \<in> set (store s1). d_id d = k \<longrightarrow> d \<in> set (store s'))
              \<and> (\<forall>e \<in> set new. \<not> concerns k e))
          \<and> (\<forall>(k, ad) \<in> set (cache s).
                now < end_time ad \<and> (\<forall>d \<in> set (store s). d_id d = k \<longrightarrow> of_doc d = ad) \<longrightarrow>
                map_of (cache s') k = Some ad
              \<and> (\<forall>d \<in> set (store s). d_id d = k \<longrightarrow> d \<in> set (store s'))
              \<and> (\<forall>e \<in> set new. \<not> concerns k e))
          \<and> (res = Inr () \<longrightarrow> (\<forall>(k, ad) \<in> set (cache s1). end_time ad \<le> now \<longrightarrow>
                Returned (Distribute ad) \<in> set new
              \<and> map_of (cache s') k = None
              \<and> k \<notin> d_id ` set (store s')))))"
  (is "?A \<and> (_ \<longrightarrow> ?X)")
proof (cases "r1 = Inr ()")
  case False
  then obtain e where e: "r1 = Inl e" by (cases r1) auto
  with up fr have "res = r1" and "s' = s1"
    by (simp_all add: frame_def bindE_def)
  moreover from up e have "cache s1 = cache s \<and> store s1 = store s"
    by (auto simp: update_def fetch_result split: if_splits)
  ultimately have "res = r1 \<and> s' = s1 \<and> cache s' = cache s \<and> store s' = store s"
    by simp
  then have ?A ..
  moreover have "r1 = Inr () \<longrightarrow> ?X"
  proof
    assume "r1 = Inr ()"
    with False show ?X by (rule notE)
  qed
  ultimately show ?thesis ..
next
  case True
  with up have u: "update env s = (Inr (), s1)" by simp
  then have f: "fetch env s = (Inr (), s1)" by (simp add: update_def)
  then have st1: "store s1 = store s"
    by (auto simp: fetch_result split: if_splits)
  from wfs have wfc: "wf_cache (cache s)" and ds: "distinct (map d_id (store s))"
    by (simp_all add: wf_def)
  have look: "\<forall>k. map_of (cache s1) k =
               (case map_of (dict_of (map of_doc (store s))) k of
                  None \<Rightarrow> map_of (cache s) k | Some ad \<Rightarrow> Some ad)"
    using fetch_lookup [OF f] by (rule allI)
  note main = sweep_after_refresh [OF wfs u fr]
  from main
  have sel: "to_resolve now (cache s1) = filter (\<lambda>ad. end_time ad \<le> now) (map snd (cache s1))"
    by (rule conjunct1)
  from main have "\<exists>new. trace s' = trace s1 @ new
        \<and> (\<forall>a. Returned (Distribute a) \<in> set new \<or> Raised (Distribute a) \<in> set new \<longrightarrow>
              a \<in> snd ` set (cache s1) \<and> end_time a \<le> now)
        \<and> (\<forall>(k, ad) \<in> set (cache s1). now < end_time ad \<longrightarrow>
              map_of (cache s') k = Some ad
            \<and> (\<forall>d \<in> set (store s1). d_id d = k \<longrightarrow> d \<in> set (store s'))
            \<and> (\<forall>e \<in> set new. \<not> concerns k e))
        \<and> (res = Inr () \<longrightarrow> (\<forall>(k, ad) \<in> set (cache s1). end_time ad \<le> now \<longrightarrow>
              Returned (Distribute ad) \<in> set new
            \<and> map_of (cache s') k = None
            \<and> k \<notin> d_id ` set (store s')))"
    by (rule conjunct2)
  then obtain new where rest: "trace s' = trace s1 @ new
        \<and> (\<forall>a. Returned (Distribute a) \<in> set new \<or> Raised (Distribute a) \<in> set new \<longrightarrow>
              a \<in> snd ` set (cache s1) \<and> end_time a \<le> now)
        \<and> (\<forall>(k, ad) \<in> set (cache s1). now < end_time ad \<longrightarrow>
              map_of (cache s') k = Some ad
            \<and> (\<forall>d \<in> set (store s1). d_id d = k \<longrightarrow> d \<in> set (store s'))
            \<and> (\<forall>e \<in> set new. \<not> concerns k e))
        \<and> (res = Inr () \<longrightarrow> (\<forall>(k, ad) \<in> set (cache s1). end_time ad \<le> now \<longrightarrow>
              Returned (Distribute ad) \<in> set new
            \<and> map_of (cache s') k = None
            \<and> k \<notin> d_id ` set (store s')))" ..
  from rest have t: "trace s' = trace s1 @ new"
    by (rule conjunct1)
  from rest have a: "\<forall>a. Returned (Distribute a) \<in> set new \<or> Raised (Distribute a) \<in> set new \<longrightarrow>
              a \<in> snd ` set (cache s1) \<and> end_time a \<le> now"
    by (rule conjunct2 [THEN conjunct1])
  from rest have later: "\<forall>(k, ad) \<in> set (cache s1). now < end_time ad \<longrightarrow>
              map_of (cache s') k = Some ad
            \<and> (\<forall>d \<in> set (store s1). d_id d = k \<longrightarrow> d \<in> set (store s'))
            \<and> (\<forall>e \<in> set new. \<not> concerns k e)"
    by (rule conjunct2 [THEN conjunct2, THEN conjunct1])
  from rest have due: "res = Inr () \<longrightarrow> (\<forall>(k, ad) \<in> set (cache s1). end_time ad \<le> now \<longrightarrow>
              Returned (Distribute ad) \<in> set new
            \<and> map_of (cache s') k = None
            \<and> k \<notin> d_id ` set (store s'))"
    by (rule conjunct2 [THEN conjunct2, THEN conjunct2])
  have before: "\<forall>(k, ad) \<in> set (cache s).
                now < end_time ad \<and> (\<forall>d \<in> set (store s). d_id d = k \<longrightarrow> of_doc d = ad) \<longrightarrow>
                map_of (cache s') k = Some ad
              \<and> (\<forall>d \<in> set (store s). d_id d = k \<longrightarrow> d \<in> set (store s'))
              \<and> (\<forall>e \<in> set new. \<not> concerns k e)"
  proof (rule ballI)
    fix p
    assume p: "p \<in> set (cache s)"
    obtain k ad where kp: "p = (k, ad)" by (cases p)
    have "map_of (cache s') k = Some ad
              \<and> (\<forall>d \<in> set (store s). d_id d = k \<longrightarrow> d \<in> set (store s'))
              \<and> (\<forall>e \<in> set new. \<not> concerns k e)"
      if fut: "now < end_time ad"
        and agree: "\<forall>d \<in> set (store s). d_id d = k \<longrightarrow> of_doc d = ad"
    proof -
      from p kp have mem: "(k, ad) \<in> set (cache s)" by simp
      with wfc have old: "map_of (cache s) k = Some ad"
        by (rule wf_cache_lookup)
      have "map_of (cache s1) k = Some ad"
      proof (cases "k \<in> d_id ` set (store s)")
        case False
        then have "map_of (dict_of (map of_doc (store s))) k = None"
          by (rule dict_of_absent)
        with look old show ?thesis by simp
      next
        case True
        then obtain d where d: "d \<in> set (store s)" and id: "d_id d = k" by auto
        with agree have "of_doc d = ad" by simp
        with map_of_docs_distinct [OF ds d] id
        have "map_of (dict_of (map of_doc (store s))) k = Some ad" by simp
        with look show ?thesis by simp
      qed
      then have "(k, ad) \<in> set (cache s1)" by (rule map_of_SomeD)
      with later have "case (k, ad) of (k, ad) \<Rightarrow> now < end_time ad \<longrightarrow>
              map_of (cache s') k = Some ad
            \<and> (\<forall>d \<in> set (store s1). d_id d = k \<longrightarrow> d \<in> set (store s'))
            \<and> (\<forall>e \<in> set new. \<not> concerns k e)"
        by (rule bspec)
      then have "now < end_time ad \<longrightarrow>
              map_of (cache s') k = Some ad
            \<and> (\<forall>d \<in> set (store s1). d_id d = k \<longrightarrow> d \<in> set (store s'))
            \<and> (\<forall>e \<in> set new. \<not> concerns k e)"
        by (simp only: prod.case)
      with fut show ?thesis by (simp add: st1)
    qed
    then show "case p of (k, ad) \<Rightarrow>
                now < end_time ad \<and> (\<forall>d \<in> set (store s). d_id d = k \<longrightarrow> of_doc d = ad) \<longrightarrow>
                map_of (cache s') k = Some ad
              \<and> (\<forall>d \<in> set (store s). d_id d = k \<longrightarrow> d \<in> set (store s'))
              \<and> (\<forall>e \<in> set new. \<not> concerns k e)"
      unfolding kp prod.case by (intro impI) (elim conjE)
  qed
  from t a later before due have ?X
    by (intro conjI exI [of _ new] look sel)
  then have "r1 = Inr () \<longrightarrow> ?X" ..
  moreover from True have ?A by simp
  ultimately show ?thesis by (rule conjI [rotated])
qed

theorem sweep_expiry_detection_witness:
  "wf live
   \<and> fst (update quiet live) = Inr ()
   \<and> fst (frame quiet 1061 live) = Inr ()
   \<and> to_resolve 1061 (cache (snd (update quiet live))) = [drop10, drop11]
   \<and> map_of (cache (snd (frame quiet 1061 live))) 12 = Some drop12
   \<and> map_of (cache (snd (frame quiet 1061 live))) 10 = None
   \<and> 10 \<notin> d_id ` set (store (snd (frame quiet 1061 live)))
   \<and> map_of (cache (snd (frame quiet 1059 live))) 10 = Some drop10
   \<and> fst (update (quiet\<lparr>fails := (\<lambda>h c. c = StoreFind)\<rparr>) live) \<noteq> Inr ()
   \<and> cache (snd (frame (quiet\<lparr>fails := (\<lambda>h c. c = StoreFind)\<rparr>) 1061 live)) = cache live"
proof -
  let ?s1 = "snd (update quiet live)"
  let ?off = "quiet\<lparr>fails := (\<lambda>h c. c = StoreFind)\<rparr>"
  have w: "wf live"
    by (simp add: run)
  have u': "fst (update quiet live) = Inr ()"
    by (simp add: update_def fetch_result quiet_def)
  then have u: "update quiet live = (Inr (), ?s1)"
    by (metis prod.collapse)
  have late': "fst (frame quiet 1061 live) = Inr ()"
    by (simp add: run)
  then have late: "frame quiet 1061 live = (Inr (), snd (frame quiet 1061 live))"
    by (metis prod.collapse)
  have early: "frame quiet 1059 live = (fst (frame quiet 1059 live), snd (frame quiet 1059 live))"
    by simp
  have m12: "(12, drop12) \<in> set (cache ?s1)" and m10: "(10, drop10) \<in> set (cache ?s1)"
    and b10: "(10, drop10) \<in> set (cache live)"
    by (simp_all add: run)
  have agree: "\<forall>d \<in> set (store live). d_id d = 10 \<longrightarrow> of_doc d = drop10"
    by (simp add: run)
  have t12: "1061 < end_time drop12" and t10: "end_time drop10 \<le> 1061" "1059 < end_time drop10"
    by (simp_all add: drop12_def drop10_def)
  have sel: "filter (\<lambda>ad. end_time ad \<le> 1061) (map snd (cache ?s1)) = [drop10, drop11]"
    by (simp add: run)
  note at_1061 = sweep_expiry_detection [OF w u late, THEN conjunct2, THEN mp, OF refl]
  note at_1059 = sweep_expiry_detection [OF w u early, THEN conjunct2, THEN mp, OF refl]
  from at_1061 [THEN conjunct2, THEN conjunct1] sel
  have a: "to_resolve 1061 (cache ?s1) = [drop10, drop11]"
    by (rule trans)
  from at_1061 [THEN conjunct2, THEN conjunct2] obtain new where
    all: "trace (snd (frame quiet 1061 live)) = trace (snd (update quiet live)) @ new
          \<and> (\<forall>a. Returned (Distribute a) \<in> set new \<or> Raised (Distribute a) \<in> set new \<longrightarrow>
                a \<in> snd ` set (cache (snd (update quiet live))) \<and> end_time a \<le> 1061)
          \<and> (\<forall>(k, ad) \<in> set (cache (snd (update quiet live))). 1061 < end_time ad \<longrightarrow>
                map_of (cache (snd (frame quiet 1061 live))) k = Some ad
              \<and> (\<forall>d \<in> set (store (snd (update quiet live))). d_id d = k \<longrightarrow> d \<in> set (store (snd (frame quiet 1061 live))))
              \<and> (\<forall>e \<in> set new. \<not> concerns k e))
          \<and> (\<forall>(k, ad) \<in> set (cache live).
                1061 < end_time ad \<and> (\<forall>d \<in> set (store live). d_id d = k \<longrightarrow> of_doc d = ad) \<longrightarrow>
                map_of (cache (snd (frame quiet 1061 live))) k = Some ad
              \<and> (\<forall>d \<in> set (store live). d_id d = k \<longrightarrow> d \<in> set (store (snd (frame quiet 1061 live))))
              \<and> (\<forall>e \<in> set new. \<not> concerns k e))
          \<and> ((Inr () :: error + unit) = Inr () \<longrightarrow> (\<forall>(k, ad) \<in> set (cache (snd (update quiet live))). end_time ad \<le> 1061 \<longrightarrow>
                Returned (Distribute ad) \<in> set new
              \<and> map_of (cache (snd (frame quiet 1061 live))) k = None
              \<and> k \<notin> d_id ` set (store (snd (frame quiet 1061 live)))))" ..
  from all have later: "\<forall>(k, ad) \<in> set (cache (snd (update quiet live))). 1061 < end_time ad \<longrightarrow>
                map_of (cache (snd (frame quiet 1061 live))) k = Some ad
              \<and> (\<forall>d \<in> set (store (snd (update quiet live))). d_id d = k \<longrightarrow> d \<in> set (store (snd (frame quiet 1061 live))))
              \<and> (\<forall>e \<in> set new. \<not> concerns k e)"
    by (rule conjunct2 [THEN conjunct2, THEN conjunct1])
  from all have "(Inr () :: error + unit) = Inr () \<longrightarrow> (\<forall>(k, ad) \<in> set (cache (snd (update quiet live))). end_time ad \<le> 1061 \<longrightarrow>
                Returned (Distribute ad) \<in> set new
              \<and> map_of (cache (snd (frame quiet 1061 live))) k = None
              \<and> k \<notin> d_id ` set (store (snd (frame quiet 1061 live))))"
    by (rule conjunct2 [THEN conjunct2, THEN conjunct2, THEN conjunct2])
  then have due: "\<forall>(k, ad) \<in> set (cache (snd (update quiet live))). end_time ad \<le> 1061 \<longrightarrow>
                Returned (Distribute ad) \<in> set new
              \<and> map_of (cache (snd (frame quiet 1061 live))) k = None
              \<and> k \<notin> d_id ` set (store (snd (frame quiet 1061 live)))"
    by (rule mp) (rule refl)
  from bspec [OF later m12] t12
  have b: "map_of (cache (snd (frame quiet 1061 live))) 12 = Some drop12"
    by simp
  from bspec [OF due m10] t10
  have c: "map_of (cache (snd (frame quiet 1061 live))) 10 = None
      \<and> 10 \<notin> d_id ` set (store (snd (frame quiet 1061 live)))"
    by simp
  from at_1059 [THEN conjunct2, THEN conjunct2] obtain new' where
    all': "trace (snd (frame quiet 1059 live)) = trace (snd (update quiet live)) @ new'
          \<and> (\<forall>a. Returned (Distribute a) \<in> set new' \<or> Raised (Distribute a) \<in> set new' \<longrightarrow>
                a \<in> snd ` set (cache (snd (update quiet live))) \<and> end_time a \<le> 1059)
          \<and> (\<forall>(k, ad) \<in> set (cache (snd (update quiet live))). 1059 < end_time ad \<longrightarrow>
                map_of (cache (snd (frame quiet 1059 live))) k = Some ad
              \<and> (\<forall>d \<in> set (store (snd (update quiet live))). d_id d = k \<longrightarrow> d \<in> set (store (snd (frame quiet 1059 live))))
              \<and> (\<forall>e \<in> set new'. \<not> concerns k e))
          \<and> (\<forall>(k, ad) \<in> set (cache live).
                1059 < end_time ad \<and> (\<forall>d \<in> set (store live). d_id d = k \<longrightarrow> of_doc d = ad) \<longrightarrow>
                map_of (cache (snd (frame quiet 1059 live))) k = Some ad
              \<and> (\<forall>d \<in> set (store live). d_id d = k \<longrightarrow> d \<in> set (store (snd (frame quiet 1059 live))))
              \<and> (\<forall>e \<in> set new'. \<not> concerns k e))
          \<and> (fst (frame quiet 1059 live) = Inr () \<longrightarrow> (\<forall>(k, ad) \<in> set (cache (snd (update quiet live))). end_time ad \<le> 1059 \<longrightarrow>
                Returned (Distribute ad) \<in> set new'
              \<and> map_of (cache (snd (frame quiet 1059 live))) k = None
              \<and> k \<notin> d_id ` set (store (snd (frame quiet 1059 live)))))" ..
  from all' have before: "\<forall>(k, ad) \<in> set (cache live).
        1059 < end_time ad \<and> (\<forall>d \<in> set (store live). d_id d = k \<longrightarrow> of_doc d = ad) \<longrightarrow>
        map_of (cache (snd (frame quiet 1059 live))) k = Some ad
      \<and> (\<forall>d \<in> set (store live). d_id d = k \<longrightarrow> d \<in> set (store (snd (frame quiet 1059 live))))
      \<and> (\<forall>e \<in> set new'. \<not> concerns k e)"
    by (rule conjunct2 [THEN conjunct2, THEN conjunct2, THEN conjunct1])
  from bspec [OF before b10] t10 agree
  have d: "map_of (cache (snd (frame quiet 1059 live))) 10 = Some drop10"
    by simp
  have off: "fst (update ?off live) \<noteq> Inr ()"
    by (simp add: update_def fetch_result quiet_def)
  have "update ?off live = (fst (update ?off live), snd (update ?off live))"
    and "frame ?off 1061 live = (fst (frame ?off 1061 live), snd (frame ?off 1061 live))"
    by simp_all
  from sweep_expiry_detection [OF w this, THEN conjunct1, THEN mp, OF off]
  have e: "cache (snd (frame ?off 1061 live)) = cache live"
    by (rule conjunct2 [THEN conjunct2, THEN conjunct1])
  from w u' late' a b c d off e show ?thesis
    by simp
qed

text \<open>
  The claim as the specification states it fails in two ways. On a well-formed state
  whose cached third airdrop, ending in the future, has an entrant that its document
  lacks, the sweep succeeds and the refresh inside it has replaced the cached airdrop.
  And with a funds backend that fails on the first due airdrop, the second due airdrop
  has no distribution attempted.
\<close>

theorem sweep_refresh_overwrites_counterexample:
  "wf stale
   \<and> map_of (cache stale) 12 = Some (drop12\<lparr>entrants := [8]\<rparr>)
   \<and> 1061 < end_time (drop12\<lparr>entrants := [8]\<rparr>)
   \<and> fst (frame quiet 1061 stale) = Inr ()
   \<and> map_of (cache (snd (frame quiet 1061 stale))) 12 = Some drop12
   \<and> drop12 \<noteq> drop12\<lparr>entrants := [8]\<rparr>
   \<and> map_of (cache (snd (update funds_down live))) 11 = Some drop11
   \<and> end_time drop11 \<le> 1061
   \<and> Returned (Distribute drop11) \<notin> set (trace (snd (frame funds_down 1061 live)))
   \<and> Raised (Distribute drop11) \<notin> set (trace (snd (frame funds_down 1061 live)))"
  by (simp add: run)

text \<open>
  C3. Atomicity of resolve on distribution failure: when the funds backend raises while
  \<^verbatim>\<open>resolve\<close> distributes the reward of the airdrop it looked up, \<^verbatim>\<open>resolve\<close> ends with that
  failure, the cache and the store are as before, the only new trace entry is the failed
  distribution, and the same reference still resolves to the airdrop, which a later sweep
  selects exactly as before.
\<close>

theorem resolve_distribution_failure:
  assumes "get_airdrop r s = (Inr ad, s)"
    and "fails env (trace s) (Distribute ad)"
  shows "\<exists>s'. resolve env r s = (Inl (CallFailed (Distribute ad)), s')
           \<and> cache s' = cache s \<and> store s' = store s
           \<and> trace s' = trace s @ [Raised (Distribute ad)]
           \<and> get_airdrop r s' = (Inr ad, s')
           \<and> to_resolve now (cache s') = to_resolve now (cache s)"
  using assms by (auto simp: resolve_def ops split: option.splits ref.splits)

theorem resolve_distribution_failure_witness:
  "get_airdrop (ById 10) live = (Inr drop10, live)
   \<and> fails funds_down (trace live) (Distribute drop10)
   \<and> (\<exists>s'. resolve funds_down (ById 10) live = (Inl (CallFailed (Distribute drop10)), s')
          \<and> cache s' = cache live \<and> store s' = store live
          \<and> trace s' = trace live @ [Raised (Distribute drop10)]
          \<and> get_airdrop (ById 10) s' = (Inr drop10, s')
          \<and> to_resolve 1061 (cache s') = to_resolve 1061 (cache live))"
proof -
  have found: "get_airdrop (ById 10) live = (Inr drop10, live)"
    by (simp add: get_airdrop_def live_def)
  have down: "fails funds_down (trace live) (Distribute drop10)"
    by (simp add: funds_down_def)
  from resolve_distribution_failure [OF found down, of 1061] found down
  show ?thesis by simp
qed

text \<open>
  C4, as amended. The sweep has no per-event error handling: when \<^verbatim>\<open>resolve\<close> fails on a due
  airdrop, after the airdrops before it in the cache's iteration order have been resolved,
  the sweep ends at once with that failure, in the state the failure left. The due
  airdrops after it are not attempted in that pass: they are still cached, unchanged, and
  no trace entry of the pass is about them.
\<close>

theorem sweep_stops_at_first_failure:
  assumes wfc: "wf_cache (cache s)"
    and up: "update env s = (Inr (), s0)"
    and sel: "to_resolve now (cache s0) = pre @ ad # post"
    and before: "resolve_all env pre s0 = (Inr (), s1)"
    and logged: "external env (LogDispatch (message_id ad)) s1 = (Inr (), s1')"
    and failed: "resolve env (ByEntity ad) s1' = (Inl e, s2)"
  shows "frame env now s = (Inl e, s2)
       \<and> (\<exists>new. trace s2 = trace s0 @ new
            \<and> (\<forall>a \<in> set post. map_of (cache s2) (message_id a) = Some a
                  \<and> (\<forall>x \<in> set new. \<not> concerns (message_id a) x)))"
proof -
  from logged failed have d: "dispatch env ad s1 = (Inl e, s2)"
    by (simp add: dispatch_def bindE_def)
  with before have part: "resolve_all env (pre @ [ad]) s0 = (Inl e, s2)"
    by (simp add: resolve_all_append bindE_def)
  then have "resolve_all env ((pre @ [ad]) @ post) s0 = (Inl e, s2)"
    by (simp only: resolve_all_append) simp
  with up sel have whole: "frame env now s = (Inl e, s2)"
    by (simp add: frame_after_update)
  from up have "fetch env s = (Inr (), s0)"
    by (simp add: update_def)
  with wfc have wf0: "wf_cache (cache s0)"
    using fetch_wf_cache by blast
  then have dist: "distinct (map message_id (pre @ ad # post))"
    using to_resolve_distinct [of "cache s0" now] sel by simp
  from resolve_all_trace [OF part] obtain new where t: "trace s2 = trace s0 @ new"
    and con: "\<forall>x \<in> set new. \<forall>k. concerns k x \<longrightarrow> k \<in> message_id ` set (pre @ [ad])"
    by blast
  note c = resolve_all_cache [OF part]
  have rest: "map_of (cache s2) (message_id a) = Some a
                  \<and> (\<forall>x \<in> set new. \<not> concerns (message_id a) x)"
    if a: "a \<in> set post" for a
  proof -
    from a have "message_id a \<in> message_id ` set post"
      by (rule imageI)
    with dist have out: "message_id a \<notin> message_id ` set (pre @ [ad])"
      by auto
    from a sel have "a \<in> set (to_resolve now (cache s0))"
      by simp
    then obtain k where m: "(k, a) \<in> set (cache s0)"
      by (auto simp: to_resolve_set)
    from wf0 m have "map_of (cache s0) k = Some a" and "message_id a = k"
      by (rule wf_cache_lookup)+
    then have "map_of (cache s0) (message_id a) = Some a" by simp
    with out c con show ?thesis by auto
  qed
  from whole t rest show ?thesis by blast
qed

theorem sweep_stops_at_first_failure_witness:
  "wf_cache (cache live)
   \<and> fst (update funds_down live) = Inr ()
   \<and> to_resolve 1061 (cache (snd (update funds_down live))) = [] @ drop10 # [drop11]
   \<and> fst (frame funds_down 1061 live) = Inl (CallFailed (Distribute drop10))
   \<and> map_of (cache (snd (frame funds_down 1061 live))) 11 = Some drop11"
proof -
  let ?s0 = "snd (update funds_down live)"
  let ?s1 = "snd (external funds_down (LogDispatch (message_id drop10)) ?s0)"
  let ?s2 = "snd (resolve funds_down (ByEntity drop10) ?s1)"
  have w: "wf_cache (cache live)"
    by (simp add: run)
  have u': "fst (update funds_down live) = Inr ()"
    by (simp add: update_def fetch_result funds_down_def quiet_def)
  then have u: "update funds_down live = (Inr (), ?s0)"
    by (metis prod.collapse)
  have sel: "to_resolve 1061 (cache ?s0) = [] @ drop10 # [drop11]"
    by (simp add: run)
  have none: "resolve_all funds_down [] ?s0 = (Inr (), ?s0)"
    by (simp add: returnE_def)
  have l: "external funds_down (LogDispatch (message_id drop10)) ?s0 = (Inr (), ?s1)"
    by (simp add: external_def funds_down_def quiet_def)
  have f: "resolve funds_down (ByEntity drop10) ?s1 = (Inl (CallFailed (Distribute drop10)), ?s2)"
    by (simp add: resolve_def bindE_def get_airdrop_def external_def funds_down_def quiet_def)
  from sweep_stops_at_first_failure [OF w u sel none l f]
  have "frame funds_down 1061 live = (Inl (CallFailed (Distribute drop10)), ?s2)
      \<and> map_of (cache ?s2) (message_id drop11) = Some drop11"
    by auto
  then have "fst (frame funds_down 1061 live) = Inl (CallFailed (Distribute drop10))
      \<and> map_of (cache (snd (frame funds_down 1061 live))) 11 = Some drop11"
    by (simp add: drop11_def)
  with w u' sel show ?thesis by simp
qed

text \<open>
  The claim as the specification states it fails: with two due airdrops and a funds
  backend that fails on the first one only, the sweep ends after the failed distribution
  and never dispatches the second airdrop, which stays cached.
\<close>

theorem sweep_aborts_counterexample:
  "to_resolve 1061 (cache (snd (update funds_down live))) = [drop10, drop11]
   \<and> fst (frame funds_down 1061 live) = Inl (CallFailed (Distribute drop10))
   \<and> trace (snd (frame funds_down 1061 live)) =
       [Returned StoreFind,
        CacheUpdate [(10, drop10), (11, drop11), (12, drop12)],
        Returned (LogDispatch 10),
        Raised (Distribute drop10)]
   \<and> map_of (cache (snd (frame funds_down 1061 live))) 11 = Some drop11"
  by (simp add: run)

text \<open>
  C5. Ordering inside resolve: a \<^verbatim>\<open>resolve\<close> that succeeds has appended to the trace, in
  this order, the committed distribution, the deletion from the cache, the unpin and the
  deletion from the store. Whatever the outcome, every removal entry that \<^verbatim>\<open>resolve\<close>
  appends stands after a committed distribution at the head of the new entries, and
  without a removal entry the cache and the store are unchanged.
\<close>

theorem resolve_order:
  assumes "resolve env r s = (res, s')"
  shows "\<exists>new. trace s' = trace s @ new \<and>
     (res = Inr () \<longrightarrow> (\<exists>ad. get_airdrop r s = (Inr ad, s) \<and> new =
        [Returned (Distribute ad), CacheDel (message_id ad),
         Returned (Unpin (channel_id ad) (message_id ad)),
         Returned (StoreDelete (message_id ad))])) \<and>
     (\<forall>e \<in> set new. removal e \<longrightarrow> (\<exists>ad. hd new = Returned (Distribute ad) \<and> e \<in> set (tl new))) \<and>
     ((\<forall>e \<in> set new. \<not> removal e) \<longrightarrow> cache s' = cache s \<and> store s' = store s)"
  using assms by (auto simp: resolve_def remove_def ops split: option.splits ref.splits if_splits)

theorem resolve_order_witness:
  "fst (resolve quiet (ById 10) live) = Inr ()
   \<and> trace (snd (resolve quiet (ById 10) live)) =
       [Returned (Distribute drop10), CacheDel 10, Returned (Unpin 2 10),
        Returned (StoreDelete 10)]"
proof -
  have ok: "fst (resolve quiet (ById 10) live) = Inr ()"
    by (simp add: run)
  have found: "get_airdrop (ById 10) live = (Inr drop10, live)"
    by (simp add: get_airdrop_def live_def)
  have "resolve quiet (ById 10) live
        = (fst (resolve quiet (ById 10) live), snd (resolve quiet (ById 10) live))"
    by simp
  from resolve_order [OF this] ok found
  have "trace (snd (resolve quiet (ById 10) live)) = trace live @
       [Returned (Distribute drop10), CacheDel (message_id drop10),
        Returned (Unpin (channel_id drop10) (message_id drop10)),
        Returned (StoreDelete (message_id drop10))]"
    by auto
  with ok show ?thesis by (simp add: live_def drop10_def)
qed

text \<open>
  C6. Create round-trip: a \<^verbatim>\<open>_add_from_message\<close> that succeeds returns an airdrop whose end
  time is the current time plus the duration, whose entrant list is empty and whose
  identifier, amount and channel are the inputs; it has inserted the airdrop's document
  into the store first and set the cache entry second, and \<^verbatim>\<open>get_airdrop\<close> on the
  identifier right afterwards returns that airdrop. When it fails, the cache and the
  store are unchanged.
\<close>

theorem create_round_trip:
  "(\<forall>ad s'. add_from_message env now m amt duration ch s = (Inr ad, s') \<longrightarrow>
      end_time ad = now + duration \<and> entrants ad = [] \<and> amount ad = amt
    \<and> message_id ad = msg_id m
    \<and> channel_id ad = ch_id (case ch of None \<Rightarrow> msg_channel m | Some c \<Rightarrow> c)
    \<and> store s' = store s @ [to_db_dict ad] \<and> of_doc (to_db_dict ad) = ad
    \<and> trace s' = trace s @ [Returned (StoreInsert (to_db_dict ad)), CacheSet (message_id ad) ad]
    \<and> get_airdrop (ById (msg_id m)) s' = (Inr ad, s'))
   \<and> (\<forall>e s'. add_from_message env now m amt duration ch s = (Inl e, s') \<longrightarrow>
      cache s' = cache s \<and> store s' = store s)"
  by (auto simp: add_from_message_def from_message_def to_db_dict_def of_doc_def ops Let_def
      update_conv' split: option.splits if_splits)

theorem create_round_trip_witness:
  "(\<exists>ad s'. add_from_message quiet 1000 anchor 100 60 (Some room) blank = (Inr ad, s')
      \<and> end_time ad = 1060 \<and> entrants ad = [] \<and> amount ad = 100 \<and> message_id ad = 13
      \<and> channel_id ad = 2 \<and> store s' = [to_db_dict ad]
      \<and> trace s' = [Returned (StoreInsert (to_db_dict ad)), CacheSet 13 ad]
      \<and> get_airdrop (ById 13) s' = (Inr ad, s'))
   \<and> (\<exists>s'. add_from_message quiet 1000 (anchor\<lparr>msg_id := 10\<rparr>) 100 60 None live
            = (Inl DuplicateKeyError, s')
      \<and> cache s' = cache live \<and> store s' = store live)"
proof -
  obtain ad s' where made: "add_from_message quiet 1000 anchor 100 60 (Some room) blank = (Inr ad, s')"
    by (simp add: run)
  obtain s2 where dup: "add_from_message quiet 1000 (anchor\<lparr>msg_id := 10\<rparr>) 100 60 None live
      = (Inl DuplicateKeyError, s2)"
    by (simp add: run)
  from create_round_trip [of quiet 1000 anchor 100 60 "Some room" blank] made
  have "end_time ad = 1060 \<and> entrants ad = [] \<and> amount ad = 100 \<and> message_id ad = 13
      \<and> channel_id ad = 2 \<and> store s' = [to_db_dict ad]
      \<and> trace s' = [Returned (StoreInsert (to_db_dict ad)), CacheSet 13 ad]
      \<and> get_airdrop (ById 13) s' = (Inr ad, s')"
    by (simp add: anchor_def room_def blank_def)
  moreover from create_round_trip [of quiet 1000 "anchor\<lparr>msg_id := 10\<rparr>" 100 60 None live] dup
  have "cache s2 = cache live \<and> store s2 = store live"
    by blast
  ultimately show ?thesis using made dup by blast
qed

text \<open>
  C7. Merge-only refresh: \<^verbatim>\<open>_fetch\<close> never removes a key from the cache and never writes to
  the store. When the read succeeds, every identifier read from the store is cached
  afterwards, an identifier read from the store maps to the airdrop built from its
  document, and every other identifier maps to what it mapped to before. When the read
  fails, the cache is unchanged.
\<close>

theorem refresh_merge_only:
  assumes "fetch env s = (res, s')"
  shows "fst ` set (cache s) \<subseteq> fst ` set (cache s')
       \<and> store s' = store s
       \<and> (res \<noteq> Inr () \<longrightarrow> cache s' = cache s)
       \<and> (res = Inr () \<longrightarrow>
            (\<forall>k. map_of (cache s') k =
                 (case map_of (dict_of (map of_doc (store s))) k of
                    None \<Rightarrow> map_of (cache s) k | Some ad \<Rightarrow> Some ad))
          \<and> (\<forall>d \<in> set (store s). d_id d \<in> fst ` set (cache s'))
          \<and> (distinct (map d_id (store s)) \<longrightarrow>
               (\<forall>d \<in> set (store s). map_of (cache s') (d_id d) = Some (of_doc d))))"
proof (cases "fails env (trace s) StoreFind")
  case True
  with assms show ?thesis
    by (auto simp: fetch_def fetch_db_state_def ops)
next
  case False
  let ?d = "dict_of (map of_doc (store s))"
  from False assms have res: "res = Inr ()" and st: "store s' = store s"
    and c: "cache s' = foldl (\<lambda>c (k, v). AList.update k v c) (cache s) ?d"
    by (auto simp: fetch_def fetch_db_state_def ops)
  have m: "map_of (cache s') = map_of (cache s) ++ map_of ?d"
    using wf_cache_dict_of [of "map of_doc (store s)"]
    by (simp add: c map_of_merge map_of_rev_distinct wf_cache_def)
  have dom: "fst ` set (cache s') = fst ` set (cache s) \<union> d_id ` set (store s)"
  proof -
    have "dom (map_of (cache s')) = dom (map_of (cache s)) \<union> dom (map_of ?d)"
      by (auto simp: m)
    then show ?thesis
      by (simp add: dom_map_of_conv_image_fst dict_of_keys image_image of_doc_def)
  qed
  have look: "\<forall>k. map_of (cache s') k = (case map_of ?d k of None \<Rightarrow> map_of (cache s) k | Some ad \<Rightarrow> Some ad)"
    by (simp add: m map_add_def)
  have "\<forall>d \<in> set (store s). map_of (cache s') (d_id d) = Some (of_doc d)"
    if "distinct (map d_id (store s))"
    using that by (simp add: look map_of_docs_distinct)
  with res st dom look show ?thesis by auto
qed

theorem refresh_merge_only_witness:
  "fst (fetch quiet lagging) = Inr ()
   \<and> fst ` set (cache lagging) \<subseteq> fst ` set (cache (snd (fetch quiet lagging)))
   \<and> map_of (cache (snd (fetch quiet lagging))) 10 = Some drop10
   \<and> 10 \<notin> d_id ` set (store lagging)
   \<and> distinct (map d_id (store lagging))
   \<and> map_of (cache (snd (fetch quiet lagging))) 11 = Some (of_doc (to_db_dict drop11))"
proof -
  have ok: "fst (fetch quiet lagging) = Inr ()"
    by (simp add: fetch_result quiet_def)
  have d: "distinct (map d_id (store lagging))" and n: "10 \<notin> d_id ` set (store lagging)"
    and m: "to_db_dict drop11 \<in> set (store lagging)"
    by (simp_all add: lagging_def to_db_dict_def drop11_def)
  have old: "map_of (cache lagging) 10 = Some drop10"
    by (simp add: lagging_def live_def)
  have absent: "map_of (dict_of (map of_doc (store lagging))) 10 = None"
    by (simp add: run lagging_def)
  have "fetch quiet lagging = (fst (fetch quiet lagging), snd (fetch quiet lagging))"
    by simp
  note fact = refresh_merge_only [OF this]
  from fact ok have "fst ` set (cache lagging) \<subseteq> fst ` set (cache (snd (fetch quiet lagging)))"
    by blast
  moreover from fact ok absent old have "map_of (cache (snd (fetch quiet lagging))) 10 = Some drop10"
    by simp
  moreover from fact ok d m
  have "map_of (cache (snd (fetch quiet lagging))) (d_id (to_db_dict drop11)) = Some (of_doc (to_db_dict drop11))"
    by blast
  then have "map_of (cache (snd (fetch quiet lagging))) 11 = Some (of_doc (to_db_dict drop11))"
    by (simp add: to_db_dict_def drop11_def)
  ultimately show ?thesis using ok d n by blast
qed

text \<open>
  C8. Insufficient funds: \<^verbatim>\<open>new_airdrop\<close>, the caller of \<^verbatim>\<open>_add_from_message\<close>, asks the funds
  backend first. When the answer is no, it reports the shortage and ends with the cache
  and the store unchanged; it changes the cache or the store only after the answer yes.
  \<^verbatim>\<open>_add_from_message\<close> itself does not depend on what the funds backend would answer.
\<close>

theorem insufficient_funds_no_state:
  "(\<not> fails env (trace s) (CanAfford amt) \<and> \<not> affordable env (trace s) amt \<longrightarrow>
      (\<exists>res s'. new_airdrop env now ctx amt duration ch s = (res, s')
         \<and> cache s' = cache s \<and> store s' = store s
         \<and> (trace s' = trace s @ [Returned (CanAfford amt), Returned (InsufficientFunds amt)]
            \<or> trace s' = trace s @ [Returned (CanAfford amt), Raised (InsufficientFunds amt)])))
   \<and> (\<forall>res s'. new_airdrop env now ctx amt duration ch s = (res, s') \<longrightarrow>
        (\<exists>rest. trace s' = trace s @ Returned (CanAfford amt) # rest)
        \<or> (trace s' = trace s @ [Raised (CanAfford amt)] \<and> cache s' = cache s \<and> store s' = store s))
   \<and> (\<forall>res s'. new_airdrop env now ctx amt duration ch s = (res, s')
          \<and> (cache s' \<noteq> cache s \<or> store s' \<noteq> store s) \<longrightarrow>
        \<not> fails env (trace s) (CanAfford amt) \<and> affordable env (trace s) amt)
   \<and> add_from_message (env\<lparr>affordable := f\<rparr>) now m amt duration ch' s
       = add_from_message env now m amt duration ch' s"
  by (auto simp: new_airdrop_def add_from_message_def ops Let_def split: option.splits if_splits sum.splits prod.splits)

theorem insufficient_funds_no_state_witness:
  "\<not> fails broke (trace live) (CanAfford 100) \<and> \<not> affordable broke (trace live) 100
   \<and> (\<exists>res s'. new_airdrop broke 1000 here 100 60 None live = (res, s')
          \<and> cache s' = cache live \<and> store s' = store live
          \<and> trace s' = [Returned (CanAfford 100), Returned (InsufficientFunds 100)])
   \<and> (\<exists>s'. new_airdrop quiet 1000 here 100 60 None live = (Inr (), s')
          \<and> store s' \<noteq> store live
          \<and> \<not> fails quiet (trace live) (CanAfford 100) \<and> affordable quiet (trace live) 100)"
proof -
  have call: "\<not> fails broke (trace live) (CanAfford 100)"
    and poor: "\<not> affordable broke (trace live) 100"
    and told: "\<not> fails broke (trace live @ [Returned (CanAfford 100)]) (InsufficientFunds 100)"
    by (simp_all add: broke_def quiet_def)
  obtain s2 where rich: "new_airdrop quiet 1000 here 100 60 None live = (Inr (), s2)"
    and grown: "store s2 \<noteq> store live"
    by (simp add: run here_def Let_def)
  note fact = insufficient_funds_no_state [of broke live 100 1000 here 60 None]
  note fact2 = insufficient_funds_no_state [of quiet live 100 1000 here 60 None]
  from fact call poor obtain res s' where
    r: "new_airdrop broke 1000 here 100 60 None live = (res, s')"
    and c: "cache s' = cache live" and st: "store s' = store live"
    and tr: "trace s' = trace live @ [Returned (CanAfford 100), Returned (InsufficientFunds 100)]
           \<or> trace s' = trace live @ [Returned (CanAfford 100), Raised (InsufficientFunds 100)]"
    by blast
  from r told call poor have "trace s' = [Returned (CanAfford 100), Returned (InsufficientFunds 100)]"
    by (auto simp: new_airdrop_def ops live_def)
  moreover from fact2 rich grown
  have "\<not> fails quiet (trace live) (CanAfford 100) \<and> affordable quiet (trace live) 100"
    by blast
  ultimately show ?thesis using call poor r c st rich grown by blast
qed

text \<open>
  C9. A \<^verbatim>\<open>_add_from_message\<close> that succeeds returns the airdrop it has created, the one now
  in the cache under its identifier and in the store; its caller \<^verbatim>\<open>new_airdrop\<close> receives that
  airdrop and hands it to the button of the anchor message.
\<close>

theorem create_returns_event:
  "(\<forall>ad s'. add_from_message env now m amt duration ch s = (Inr ad, s') \<longrightarrow>
       ad = from_message m amt (now + duration) ch
     \<and> map_of (cache s') (message_id ad) = Some ad
     \<and> to_db_dict ad \<in> set (store s'))
   \<and> (\<forall>s'. new_airdrop env now ctx amt duration ch s = (Inr (), s') \<longrightarrow>
       Returned (InsufficientFunds amt) \<in> set (trace s')
     \<or> (\<exists>root loc s1 s2 ad.
           add_from_message env now root amt duration (Some loc) s1 = (Inr ad, s2)
         \<and> Returned (EditView (msg_id root) ad) \<in> set (trace s')
         \<and> map_of (cache s') (message_id ad) = Some ad))"
proof -
  have a: "ad = from_message m amt (now + duration) ch
     \<and> map_of (cache s') (message_id ad) = Some ad
     \<and> to_db_dict ad \<in> set (store s')"
    if "add_from_message env now m amt duration ch s = (Inr ad, s')" for ad s'
    using add_from_message_success [OF that] by (simp add: update_conv')
  have b: "Returned (InsufficientFunds amt) \<in> set (trace s')
     \<or> (\<exists>root loc s1 s2 ad.
           add_from_message env now root amt duration (Some loc) s1 = (Inr ad, s2)
         \<and> Returned (EditView (msg_id root) ad) \<in> set (trace s')
         \<and> map_of (cache s') (message_id ad) = Some ad)"
    if run: "new_airdrop env now ctx amt duration ch s = (Inr (), s')" for s'
  proof -
    let ?loc = "case ch of None \<Rightarrow> ctx_channel ctx | Some c \<Rightarrow> c"
    obtain r0 s0 where q: "can_afford env amt s = (r0, s0)" by (cases "can_afford env amt s")
    show ?thesis
    proof (cases r0)
      case (Inl e)
      with q run show ?thesis by (simp add: new_airdrop_def bindE_def)
    next
      case (Inr ok)
      show ?thesis
      proof (cases ok)
        case False
        with Inr q run have "external env (InsufficientFunds amt) s0 = (Inr (), s')"
          by (simp add: new_airdrop_def bindE_def)
        then show ?thesis by (auto simp: external_def split: if_splits)
      next
        case True
        obtain r1 s1 where c: "external env RespondConfirmed s0 = (r1, s1)"
          by (cases "external env RespondConfirmed s0")
        obtain r2 s2 where sd: "send env ?loc s1 = (r2, s2)"
          by (cases "send env ?loc s1")
        from True Inr q run c sd obtain root where root: "r2 = Inr root"
          by (cases r1; cases r2) (auto simp: new_airdrop_def bindE_def Let_def)
        obtain r3 s3 where mk: "add_from_message env now root amt duration (Some ?loc) s2 = (r3, s3)"
          by (cases "add_from_message env now root amt duration (Some ?loc) s2")
        from True Inr q run c sd root mk obtain ad where ad: "r3 = Inr ad"
          by (cases r1; cases r3) (auto simp: new_airdrop_def bindE_def Let_def)
        from True Inr q run c sd root mk ad
        have rest: "bindE (external env (EditView (msg_id root) ad))
                      (\<lambda>_. external env (Pin (msg_id root))) s3 = (Inr (), s')"
          by (cases r1) (auto simp: new_airdrop_def bindE_def Let_def)
        then have tr: "Returned (EditView (msg_id root) ad) \<in> set (trace s')"
          and same: "cache s' = cache s3"
          by (auto simp: bindE_def external_def split: if_splits)
        from mk ad have "map_of (cache s3) (message_id ad) = Some ad"
          using add_from_message_success(2) [of env now root amt duration "Some ?loc" s2 ad s3]
          by (simp add: update_conv')
        with mk ad tr same show ?thesis by auto
      qed
    qed
  qed
  from a b show ?thesis by blast
qed

theorem create_returns_event_witness:
  "(\<exists>ad s'. add_from_message quiet 1000 anchor 100 60 None live = (Inr ad, s')
      \<and> ad = from_message anchor 100 1060 None
      \<and> map_of (cache s') 13 = Some ad
      \<and> to_db_dict ad \<in> set (store s'))
   \<and> (\<exists>s'. new_airdrop quiet 1000 here 100 60 None live = (Inr (), s')
      \<and> Returned (InsufficientFunds 100) \<notin> set (trace s')
      \<and> (\<exists>(root::message) ad. Returned (EditView (msg_id root) ad) \<in> set (trace s')
            \<and> map_of (cache s') (message_id ad) = Some ad))"
proof -
  obtain ad s' where made: "add_from_message quiet 1000 anchor 100 60 None live = (Inr ad, s')"
    by (simp add: run)
  obtain s2 where new: "new_airdrop quiet 1000 here 100 60 None live = (Inr (), s2)"
    and told: "Returned (InsufficientFunds 100) \<notin> set (trace s2)"
    by (simp add: run here_def)
  note fact = create_returns_event [of quiet 1000 anchor 100 60 None live here]
  from fact made
  have all: "ad = from_message anchor 100 (1000 + 60) None
      \<and> map_of (cache s') (message_id ad) = Some ad
      \<and> to_db_dict ad \<in> set (store s')"
    by blast
  then have e: "ad = from_message anchor 100 1060 None"
    by simp
  have "message_id ad = 13"
    by (simp add: e from_message_def anchor_def)
  with all e made have one: "\<exists>ad s'. add_from_message quiet 1000 anchor 100 60 None live = (Inr ad, s')
      \<and> ad = from_message anchor 100 1060 None
      \<and> map_of (cache s') 13 = Some ad
      \<and> to_db_dict ad \<in> set (store s')"
    by metis
  from fact have "\<forall>s'. new_airdrop quiet 1000 here 100 60 None live = (Inr (), s') \<longrightarrow>
       Returned (InsufficientFunds 100) \<in> set (trace s')
     \<or> (\<exists>root loc s1 s2 ad.
           add_from_message quiet 1000 root 100 60 (Some loc) s1 = (Inr ad, s2)
         \<and> Returned (EditView (msg_id root) ad) \<in> set (trace s')
         \<and> map_of (cache s') (message_id ad) = Some ad)"
    by (rule conjunct2)
  with new told
  have "\<exists>(root::message) ad. Returned (EditView (msg_id root) ad) \<in> set (trace s2)
            \<and> map_of (cache s2) (message_id ad) = Some ad"
    by meson
  with one new told show ?thesis by blast
qed

text \<open>
  C10. Given an entity, \<^verbatim>\<open>get_airdrop\<close> returns it without reading the cache, so \<^verbatim>\<open>cancel\<close>
  and \<^verbatim>\<open>resolve\<close> on an entity never end with \<^verbatim>\<open>AirdropNotFound\<close>. When the entity is no
  longer cached, \<^verbatim>\<open>cancel\<close> ends with the dictionary's \<^verbatim>\<open>KeyError\<close>, and \<^verbatim>\<open>resolve\<close> first
  distributes the reward again and then ends with \<^verbatim>\<open>KeyError\<close>.
\<close>

theorem entity_lookup:
  "get_airdrop (ByEntity ad) s = (Inr ad, s)
   \<and> fst (resolve env (ByEntity ad) s) \<noteq> Inl AirdropNotFound
   \<and> fst (cancel env (ByEntity ad) s) \<noteq> Inl AirdropNotFound
   \<and> (map_of (cache s) (message_id ad) = None \<longrightarrow>
        cancel env (ByEntity ad) s = (Inl KeyError, s)
      \<and> (\<not> fails env (trace s) (Distribute ad) \<longrightarrow>
          resolve env (ByEntity ad) s = (Inl KeyError, s\<lparr>trace := trace s @ [Returned (Distribute ad)]\<rparr>)))"
  by (auto simp: resolve_def cancel_def remove_def ops split: option.splits ref.splits)

theorem entity_lookup_witness:
  "map_of (cache blank) (message_id drop10) = None
   \<and> \<not> fails quiet (trace blank) (Distribute drop10)
   \<and> get_airdrop (ByEntity drop10) blank = (Inr drop10, blank)
   \<and> cancel quiet (ByEntity drop10) blank = (Inl KeyError, blank)
   \<and> resolve quiet (ByEntity drop10) blank
       = (Inl KeyError, blank\<lparr>trace := trace blank @ [Returned (Distribute drop10)]\<rparr>)"
proof -
  have gone: "map_of (cache blank) (message_id drop10) = None"
    by (simp add: blank_def)
  have up: "\<not> fails quiet (trace blank) (Distribute drop10)"
    by (simp add: quiet_def)
  from entity_lookup [of drop10 blank quiet] gone up show ?thesis by simp
qed

end
